theory Spec2Isabelle
  imports Main "HOL-Library.Word" "HOL-Library.AList"
begin

section \<open>JavaScript strings\<close>

text \<open>
  A JavaScript string is a sequence of UTF-16 code units. File contents, script texts and
  the paths carried by commands are values of this type; names of directory entries and
  error messages, which the code builds from ASCII literals, are HOL strings.
\<close>

type_synonym jschar = "16 word"
type_synonym jsstring = "jschar list"

definition js :: "string \<Rightarrow> jsstring" where
  "js s = map (\<lambda>c. of_char c) s"

text \<open>
  The class \<open>\s\<close> of a JavaScript regular expression: the WhiteSpace and LineTerminator
  code points of ECMAScript (TAB, LF, VT, FF, CR, SP, NBSP, the Unicode space separators,
  LS, PS and the byte order mark).
\<close>

definition is_ws :: "jschar \<Rightarrow> bool" where
  "is_ws c \<longleftrightarrow>
     c = 0x09 \<or> c = 0x0A \<or> c = 0x0B \<or> c = 0x0C \<or> c = 0x0D \<or> c = 0x20 \<or> c = 0xA0 \<or>
     c = 0x1680 \<or> (0x2000 \<le> c \<and> c \<le> 0x200A) \<or> c = 0x2028 \<or> c = 0x2029 \<or>
     c = 0x202F \<or> c = 0x205F \<or> c = 0x3000 \<or> c = 0xFEFF"

text \<open>
  \<open>String(content).replace(/\s+$/, '')\<close>: the leftmost match of \<open>\s+$\<close> is the whole
  maximal run of whitespace at the end of the string, and it is replaced by nothing.
\<close>

definition rbStrip :: "jsstring \<Rightarrow> jsstring" where
  "rbStrip s = rev (dropWhile is_ws (rev s))"

text \<open>
  The control process writes every file with the encoding \<open>utf8\<close> (given as an option, or
  the default of \<open>writeFileSync\<close> for a string) and reads with \<open>utf8\<close> too. The encoder has
  no bytes for a surrogate without its partner and writes U+FFFD in its place, so the text
  a written file holds is the string with every unpaired surrogate replaced, which is
  what \<open>String.prototype.toWellFormed\<close> computes. A file is modelled by the text it holds.
\<close>

definition is_lead :: "jschar \<Rightarrow> bool" where
  "is_lead c \<longleftrightarrow> 0xD800 \<le> c \<and> c \<le> 0xDBFF"

definition is_trail :: "jschar \<Rightarrow> bool" where
  "is_trail c \<longleftrightarrow> 0xDC00 \<le> c \<and> c \<le> 0xDFFF"

fun toWellFormed :: "jsstring \<Rightarrow> jsstring" where
  "toWellFormed [] = []"
| "toWellFormed [c] = (if is_lead c \<or> is_trail c then [0xFFFD] else [c])"
| "toWellFormed (c # c' # cs) =
     (if is_lead c \<and> is_trail c' then c # c' # toWellFormed cs
      else if is_lead c \<or> is_trail c then 0xFFFD # toWellFormed (c' # cs)
      else c # toWellFormed (c' # cs))"

definition ends_with :: "'a list \<Rightarrow> 'a list \<Rightarrow> bool" where
  "ends_with suf s \<longleftrightarrow> length suf \<le> length s \<and> drop (length s - length suf) s = suf"


section \<open>The host-side bridge script (\<open>getUnifiedBridgeCode\<close>)\<close>

subsection \<open>The queue folder as the script sees it\<close>

text \<open>
  The script touches one folder only, the queue. An entry of the folder is what
  \<open>getFiles\<close> returns: a \<open>File\<close> or a \<open>Folder\<close> object with a name and a modification
  time; \<open>content\<close> is what \<open>f.read()\<close> returns, \<open>None\<close> when opening or reading throws.
  The folder itself is \<open>None\<close> while it does not exist. Removing an entry that exists
  succeeds.
\<close>

record entry =
  fname :: string
  is_file :: bool
  modified :: int
  content :: "jsstring option"

type_synonym queue = "entry list option"

definition rbEnsureDir :: "queue \<Rightarrow> queue" where
  "rbEnsureDir q = (case q of None \<Rightarrow> Some [] | Some fs \<Rightarrow> Some fs)"

text \<open>\<open>queue.getFiles(mask)\<close> for the masks \<open>'*'\<close>, \<open>'*.cmd'\<close> and \<open>'*.jsx'\<close>.\<close>

definition getFiles :: "string \<Rightarrow> entry list \<Rightarrow> entry list" where
  "getFiles suf fs = filter (\<lambda>e. ends_with suf (fname e)) fs"

definition remove_entry :: "entry \<Rightarrow> entry list \<Rightarrow> entry list" where
  "remove_entry f fs = filter (\<lambda>e. fname e \<noteq> fname f) fs"

definition stop_exists :: "queue \<Rightarrow> bool" where
  "stop_exists q = (case q of None \<Rightarrow> False | Some fs \<Rightarrow> ''STOP_BRIDGE.txt'' \<in> set (map fname fs))"

subsection \<open>\<open>rbCleanupOldFiles\<close>\<close>

definition maxAge :: int where
  "maxAge = 5 * 60 * 1000"

fun sweep :: "int \<Rightarrow> entry list \<Rightarrow> entry list \<Rightarrow> entry list" where
  "sweep now [] dir = dir"
| "sweep now (f # fs) dir =
     sweep now fs (if now - modified f > maxAge then remove_entry f dir else dir)"

definition rbCleanupOldFiles :: "int \<Rightarrow> queue \<Rightarrow> queue" where
  "rbCleanupOldFiles now q =
     (case rbEnsureDir q of
        None \<Rightarrow> None
      | Some dir \<Rightarrow>
          (let files = getFiles [] dir in
           if files = [] then Some dir else Some (sweep now files dir)))"

subsection \<open>\<open>rbProcess\<close>, the timer callback\<close>

text \<open>
  What the callback asks of the application: whether a project is open, the active item
  (for a composition, the number of selected layers), how the import of a path goes
  (\<open>ImportOptions\<close>, \<open>importFile\<close> and the move into the \<open>Audio\<close> bin: an exception, no
  footage, or footage), whether adding the layer and setting its start time throws, and
  how the script branch goes. \<open>eval(content)\<close> is a direct \<open>eval\<close>: the script runs in the
  scope of \<open>rbProcess\<close> and can assign to its variables. \<open>eval_throws\<close> tells whether the
  branch (the script, or the closing of the undo group after it) throws;
  \<open>eval_rebinds_f\<close> tells whether the script leaves \<open>f\<close> bound to something else than the
  queue file, as \<open>var f = 1;\<close> does. The \<open>f.remove()\<close> that follows then throws, or removes
  what \<open>f\<close> has become, inside its own \<open>try\<close>; it is taken to remove no entry of the
  queue. What a script or an import does to the project, and what a script does to the
  disk by itself, is not part of the model.
\<close>

datatype active_item = NoItem | OtherItem | CompItem nat

datatype import_result = ImportThrows | NoFootage | Footage

record host =
  project :: bool
  activeItem :: active_item
  importFile :: "jsstring \<Rightarrow> import_result"
  addLayer_throws :: bool
  eval_throws :: "jsstring \<Rightarrow> bool"
  eval_rebinds_f :: "jsstring \<Rightarrow> bool"

datatype file_type = Cmd | Jsx

text \<open>What a tick did, in order: files read, media imported, scripts evaluated, files removed.\<close>

datatype event =
  Opened string | Imported jsstring | LayerAdded | Evaluated jsstring | Removed string

text \<open>
  The inner \<open>try\<close> of \<open>rbProcess\<close>: \<open>Threw\<close> when the \<open>catch\<close> branch ran, otherwise
  the value of \<open>ok\<close> when the block ended.
\<close>

datatype dispatch_result = Threw | Finished bool

fun rbDispatch :: "host \<Rightarrow> file_type \<Rightarrow> jsstring \<Rightarrow> dispatch_result \<times> event list" where
  "rbDispatch h Cmd c =
     (case importFile h c of
        ImportThrows \<Rightarrow> (Threw, [])
      | NoFootage \<Rightarrow> (Finished False, [])
      | Footage \<Rightarrow>
          (case activeItem h of
             CompItem n \<Rightarrow>
               if addLayer_throws h then (Threw, [Imported c])
               else (Finished True, [Imported c, LayerAdded])
           | _ \<Rightarrow> (Finished False, [Imported c])))"
| "rbDispatch h Jsx c =
     (if eval_throws h c then (Threw, [Evaluated c]) else (Finished True, [Evaluated c]))"

definition final_ok :: "dispatch_result \<Rightarrow> bool" where
  "final_ok r = (case r of Threw \<Rightarrow> False | Finished ok \<Rightarrow> ok)"

text \<open>Whether \<open>f\<close> is still the queue file when the inner \<open>try\<close> has ended.\<close>

definition f_intact :: "host \<Rightarrow> file_type \<Rightarrow> jsstring \<Rightarrow> bool" where
  "f_intact h ty c \<longleftrightarrow> \<not> (ty = Jsx \<and> eval_rebinds_f h c)"

definition allFiles :: "entry list \<Rightarrow> (entry \<times> file_type) list" where
  "allFiles dir =
     map (\<lambda>f. (f, Cmd)) (getFiles ''.cmd'' dir) @ map (\<lambda>f. (f, Jsx)) (getFiles ''.jsx'' dir)"

definition user_selection :: "host \<Rightarrow> bool" where
  "user_selection h \<longleftrightarrow>
     project h \<and> (case activeItem h of CompItem n \<Rightarrow> n > 0 | _ \<Rightarrow> False)"

definition rbProcess :: "host \<Rightarrow> queue \<Rightarrow> queue \<times> event list" where
  "rbProcess h q =
     (case rbEnsureDir q of
        None \<Rightarrow> (None, [])
      | Some dir \<Rightarrow>
          if stop_exists (Some dir) then (Some dir, [])
          else if user_selection h then (Some dir, [])
          else
            (case allFiles dir of
               [] \<Rightarrow> (Some dir, [])
             | (f, fileType) # _ \<Rightarrow>
                 if \<not> is_file f then (Some dir, [])
                 else
                   (case content f of
                      None \<Rightarrow> (Some dir, [Opened (fname f)])
                    | Some raw \<Rightarrow>
                        (let c = rbStrip raw in
                         if c = [] then (Some dir, [Opened (fname f)])
                         else if \<not> project h then (Some dir, [Opened (fname f)])
                         else
                           (case rbDispatch h fileType c of
                              (r, evs) \<Rightarrow>
                                if final_ok r \<and> f_intact h fileType c
                                then (Some (remove_entry f dir),
                                      Opened (fname f) # evs @ [Removed (fname f)])
                                else (Some dir, Opened (fname f) # evs))))))"

text \<open>
  The script as the host runs it at startup: one sweep, then \<open>rbProcess\<close> scheduled every
  5000 ms. The hosts of the successive ticks are given as a list.
\<close>

fun ticks :: "host list \<Rightarrow> queue \<Rightarrow> queue" where
  "ticks [] q = q"
| "ticks (h # hs) q = ticks hs (fst (rbProcess h q))"

definition bridge_script :: "int \<Rightarrow> host list \<Rightarrow> queue \<Rightarrow> queue" where
  "bridge_script now hs q = ticks hs (rbCleanupOldFiles now q)"

text \<open>The file a tick selects: \<open>allFiles[0]\<close>.\<close>

definition selected :: "entry list \<Rightarrow> entry option" where
  "selected dir = (case allFiles dir of [] \<Rightarrow> None | (f, _) # _ \<Rightarrow> Some f)"

subsection \<open>What the submitter writes into a queue file\<close>

text \<open>
  \<open>queueCommand\<close> writes \<open>content + "\n"\<close>; the file then holds \<open>toWellFormed\<close> of it, and
  that text is what the \<open>f.read()\<close> of the host is taken to return.
\<close>

definition payload :: "jsstring \<Rightarrow> jsstring" where
  "payload c = c @ [0x0A]"


section \<open>The file system of the control process\<close>

text \<open>
  The Node side works on absolute paths below the home directory. A path is its list of
  components (\<open>path.join\<close> appends); the disk is an association list from paths to
  nodes, in directory order. \<open>denied\<close> marks the paths this process may not create,
  overwrite or remove (a permission failure); the other failures are structural: a file
  where a directory is needed, a directory where a file is needed, a missing parent.
\<close>

type_synonym path = "string list"

datatype node = File jsstring | Dir

type_synonym fs = "(path \<times> node) list"

datatype fs_error = ENOENT | ENOTDIR | EISDIR | EACCES

definition is_dir :: "fs \<Rightarrow> path \<Rightarrow> bool" where
  "is_dir d p \<longleftrightarrow> p = [] \<or> map_of d p = Some Dir"

text \<open>The non-empty prefixes of a path, shortest first.\<close>

fun prefixes_of :: "path \<Rightarrow> path list" where
  "prefixes_of [] = []"
| "prefixes_of (x # xs) = [x] # map ((#) x) (prefixes_of xs)"

text \<open>
  \<open>fs.mkdirSync(p, {recursive: true})\<close>: creates the missing directories from the top;
  it stops at the first one it cannot create and keeps the ones it has created. A
  result \<open>Some e\<close> is the exception thrown.
\<close>

fun mkdirs :: "(path \<Rightarrow> bool) \<Rightarrow> path list \<Rightarrow> fs \<Rightarrow> fs_error option \<times> fs" where
  "mkdirs dn [] d = (None, d)"
| "mkdirs dn (q # qs) d =
     (case map_of d q of
        Some Dir \<Rightarrow> mkdirs dn qs d
      | Some (File _) \<Rightarrow> (Some ENOTDIR, d)
      | None \<Rightarrow> if dn q then (Some EACCES, d) else mkdirs dn qs (d @ [(q, Dir)]))"

definition mkdirSync :: "(path \<Rightarrow> bool) \<Rightarrow> path \<Rightarrow> fs \<Rightarrow> fs_error option \<times> fs" where
  "mkdirSync dn p d = mkdirs dn (prefixes_of p) d"

text \<open>\<open>fs.writeFileSync(p, c)\<close> with the encoding \<open>utf8\<close>.\<close>

definition writeFileSync ::
  "(path \<Rightarrow> bool) \<Rightarrow> path \<Rightarrow> jsstring \<Rightarrow> fs \<Rightarrow> fs_error option \<times> fs" where
  "writeFileSync dn p c d =
     (if p = [] \<or> map_of d p = Some Dir then (Some EISDIR, d)
      else if \<not> is_dir d (butlast p) then (Some ENOENT, d)
      else if dn p then (Some EACCES, d)
      else (None, AList.update p (File (toWellFormed c)) d))"

definition readFileSync :: "path \<Rightarrow> fs \<Rightarrow> fs_error + jsstring" where
  "readFileSync p d =
     (case map_of d p of
        Some (File c) \<Rightarrow> Inr c
      | Some Dir \<Rightarrow> Inl EISDIR
      | None \<Rightarrow> if p = [] then Inl EISDIR else Inl ENOENT)"

definition unlinkSync :: "(path \<Rightarrow> bool) \<Rightarrow> path \<Rightarrow> fs \<Rightarrow> fs_error option \<times> fs" where
  "unlinkSync dn p d =
     (case map_of d p of
        Some (File c) \<Rightarrow> if dn p then (Some EACCES, d) else (None, AList.delete p d)
      | Some Dir \<Rightarrow> (Some EISDIR, d)
      | None \<Rightarrow> if p = [] then (Some EISDIR, d) else (Some ENOENT, d))"

text \<open>\<open>fs.renameSync\<close>; the code renames files only.\<close>

definition renameSync ::
  "(path \<Rightarrow> bool) \<Rightarrow> path \<Rightarrow> path \<Rightarrow> fs \<Rightarrow> fs_error option \<times> fs" where
  "renameSync dn src dst d =
     (case map_of d src of
        Some (File c) \<Rightarrow>
          if dst = [] \<or> map_of d dst = Some Dir then (Some EISDIR, d)
          else if \<not> is_dir d (butlast dst) then (Some ENOENT, d)
          else if dn src \<or> dn dst then (Some EACCES, d)
          else (None, AList.update dst (File c) (AList.delete src d))
      | Some Dir \<Rightarrow> (Some EISDIR, d)
      | None \<Rightarrow> (Some ENOENT, d))"

definition readdirSync :: "path \<Rightarrow> fs \<Rightarrow> fs_error + string list" where
  "readdirSync p d =
     (if is_dir d p
      then Inr (map (\<lambda>k. last k) (filter (\<lambda>k. k \<noteq> [] \<and> butlast k = p) (map fst d)))
      else if map_of d p = None then Inl ENOENT else Inl ENOTDIR)"

text \<open>\<open>fs.statSync(p).isDirectory()\<close> inside its \<open>try\<close>: false when \<open>statSync\<close> throws.\<close>

definition isDirectory :: "fs \<Rightarrow> path \<Rightarrow> bool" where
  "isDirectory d p \<longleftrightarrow> map_of d p = Some Dir"

fun dec :: "nat \<Rightarrow> string" where
  "dec n = (if n < 10 then [''0123456789'' ! n]
            else dec (n div 10) @ [''0123456789'' ! (n mod 10)])"

declare dec.simps [simp del]


section \<open>The installer\<close>

record BridgeTarget =
  base :: path
  versions :: "string list"

record BridgeInstallResult =
  success :: bool
  installCount :: nat
  message :: string

text \<open>\<open>process.env.HOME || "~"\<close>; \<open>None\<close> stands for an unset or empty variable.\<close>

definition home_or_tilde :: "path option \<Rightarrow> path" where
  "home_or_tilde h = (case h of None \<Rightarrow> [''~''] | Some p \<Rightarrow> p)"

definition getBridgeQueueDir :: "path option \<Rightarrow> path" where
  "getBridgeQueueDir h =
     home_or_tilde h @ [''Library'', ''Application Support'', ''raycast-ae-bridge'', ''queue'']"

definition candidates :: "path option \<Rightarrow> path list" where
  "candidates h =
     [home_or_tilde h @ [''Library'', ''Preferences'', ''Adobe'', ''After Effects''],
      home_or_tilde h @ [''Library'', ''Application Support'', ''Adobe'', ''After Effects'']]"

definition seed_versions :: "string list" where
  "seed_versions = [''25.0'', ''24.0'', ''23.0'']"

text \<open>The body of the loop of \<open>discoverAETargets\<close> for one candidate.\<close>

definition discover_one :: "(path \<Rightarrow> bool) \<Rightarrow> path \<Rightarrow> fs \<Rightarrow> BridgeTarget \<times> fs" where
  "discover_one dn b d =
     (let d1 = snd (mkdirSync dn b d);
          vs = (case readdirSync b d1 of
                  Inl _ \<Rightarrow> []
                | Inr names \<Rightarrow> filter (\<lambda>v. isDirectory d1 (b @ [v])) names)
      in if vs = []
         then (\<lparr>base = b, versions = seed_versions\<rparr>,
               fold (\<lambda>v acc. snd (mkdirSync dn (b @ [v]) acc)) seed_versions d1)
         else (\<lparr>base = b, versions = vs\<rparr>, d1))"

fun discover_loop :: "(path \<Rightarrow> bool) \<Rightarrow> path list \<Rightarrow> fs \<Rightarrow> BridgeTarget list \<times> fs" where
  "discover_loop dn [] d = ([], d)"
| "discover_loop dn (b # bs) d =
     (case discover_one dn b d of
        (t, d1) \<Rightarrow> (case discover_loop dn bs d1 of (ts, d2) \<Rightarrow> (t # ts, d2)))"

definition discoverAETargets ::
  "(path \<Rightarrow> bool) \<Rightarrow> path option \<Rightarrow> fs \<Rightarrow> BridgeTarget list \<times> fs" where
  "discoverAETargets dn h d = discover_loop dn (candidates h) d"

text \<open>
  The inner \<open>try\<close> of \<open>installUnifiedBridge\<close> for one version folder: the startup
  folder is created, the script is written, and only then the counter goes up.
\<close>

definition install_one ::
  "(path \<Rightarrow> bool) \<Rightarrow> jsstring \<Rightarrow> path \<Rightarrow> fs \<Rightarrow> bool \<times> fs" where
  "install_one dn code startupDir d =
     (case mkdirSync dn startupDir d of
        (Some e, d1) \<Rightarrow> (False, d1)
      | (None, d1) \<Rightarrow>
          (case writeFileSync dn (startupDir @ [''RaycastBridge.jsx'']) code d1 of
             (Some e, d2) \<Rightarrow> (False, d2)
           | (None, d2) \<Rightarrow> (True, d2)))"

fun install_paths :: "(path \<Rightarrow> bool) \<Rightarrow> jsstring \<Rightarrow> path list \<Rightarrow> nat \<times> fs \<Rightarrow> nat \<times> fs" where
  "install_paths dn code [] (n, d) = (n, d)"
| "install_paths dn code (p # ps) (n, d) =
     (case install_one dn code p d of
        (True, d1) \<Rightarrow> install_paths dn code ps (Suc n, d1)
      | (False, d1) \<Rightarrow> install_paths dn code ps (n, d1))"

text \<open>The startup folders in the order in which the two nested loops visit them.\<close>

definition startup_dirs :: "BridgeTarget list \<Rightarrow> path list" where
  "startup_dirs ts =
     concat (map (\<lambda>t. map (\<lambda>v. base t @ [v, ''Scripts'', ''Startup'']) (versions t)) ts)"

text \<open>
  \<open>installUnifiedBridge\<close>; \<open>code\<close> is the text \<open>getUnifiedBridgeCode()\<close> returns. Every
  file system call of the body sits in a \<open>try\<close> of its own, so the outer \<open>catch\<close> has
  nothing to catch and the promise always resolves with a result.
\<close>

definition installUnifiedBridge ::
  "(path \<Rightarrow> bool) \<Rightarrow> path option \<Rightarrow> jsstring \<Rightarrow> fs \<Rightarrow> BridgeInstallResult \<times> fs" where
  "installUnifiedBridge dn h code d =
     (case discoverAETargets dn h d of
        (targets, d1) \<Rightarrow>
          (case install_paths dn code (startup_dirs targets) (0, d1) of
             (installs, d2) \<Rightarrow>
               if installs = 0
               then (\<lparr>success = False, installCount = 0,
                      message = ''Could not create any Startup folder''\<rparr>, d2)
               else (\<lparr>success = True, installCount = installs,
                      message = ''Installed Bridge in '' @ dec installs @ '' version(s)''\<rparr>, d2)))"


section \<open>The control process: submitting and running commands\<close>

subsection \<open>System calls, with a trace\<close>

text \<open>
  The AppleScript sources the code hands to \<open>/usr/bin/osascript\<close>: the query to System
  Events, the fast path's \<open>DoScriptFile\<close> of a given file (the argument is the quoted
  path), and the fallback's run of \<open>aelistener.jsx\<close>. The last two start with
  \<open>tell application "After Effects" activate\<close>, which launches the application when it is
  not running; the first does not address After Effects at all.
\<close>

datatype ascript = ExistsProcess | DoScriptFile jsstring | RunListener

text \<open>How the child process ended: exit code, stdout and stderr, or the \<open>error\<close> event.\<close>

datatype proc_result = Exited nat jsstring jsstring | SpawnError

datatype syscall =
  Mkdir path | Write path jsstring | Rename path path | Unlink path | ReadF path
| Osascript ascript | Sleep nat

record world =
  disk :: fs
  trace :: "syscall list"

datatype OnDemandCommand =
  ImportAudio jsstring "bool option"
| RunJsxText jsstring
| RunJsxFile path

record OnDemandBody =
  requestId :: string
  operation :: string
  elapsedMs :: nat

record OnDemandResult =
  ok :: bool
  result :: "OnDemandBody option"
  error :: "jsstring option"

text \<open>
  What the process cannot compute by itself: the environment variable, \<open>os.homedir()\<close>,
  the denied paths, \<open>Date.now()\<close> and \<open>Math.random().toString(36).slice(2)\<close> at the time
  of the call, what each AppleScript run returns, \<open>JSON.parse\<close> (\<open>None\<close> for a syntax
  error) and \<open>JSON.stringify\<close> of a payload, what the host has done to the disk when
  the awaiter comes back to it \<open>t\<close> milliseconds after it started, and by how much a turn
  of the awaiter's loop that began at \<open>t\<close> exceeds the 150 ms of its \<open>sleep\<close>.
\<close>

record env =
  HOME :: "path option"
  homedir :: path
  denied :: "path \<Rightarrow> bool"
  now_ms :: nat
  random36 :: string
  osascript :: "ascript \<Rightarrow> proc_result"
  json_parse :: "jsstring \<Rightarrow> OnDemandResult option"
  json_stringify :: "OnDemandCommand \<Rightarrow> string \<Rightarrow> path \<Rightarrow> jsstring"
  host_fs :: "nat \<Rightarrow> fs \<Rightarrow> fs"
  lag :: "nat \<Rightarrow> nat"

definition sys_mkdir :: "env \<Rightarrow> path \<Rightarrow> world \<Rightarrow> fs_error option \<times> world" where
  "sys_mkdir e p w =
     (case mkdirSync (denied e) p (disk w) of
        (r, d) \<Rightarrow> (r, \<lparr>disk = d, trace = trace w @ [Mkdir p]\<rparr>))"

definition sys_write :: "env \<Rightarrow> path \<Rightarrow> jsstring \<Rightarrow> world \<Rightarrow> fs_error option \<times> world" where
  "sys_write e p c w =
     (case writeFileSync (denied e) p c (disk w) of
        (r, d) \<Rightarrow> (r, \<lparr>disk = d, trace = trace w @ [Write p c]\<rparr>))"

definition sys_unlink :: "env \<Rightarrow> path \<Rightarrow> world \<Rightarrow> fs_error option \<times> world" where
  "sys_unlink e p w =
     (case unlinkSync (denied e) p (disk w) of
        (r, d) \<Rightarrow> (r, \<lparr>disk = d, trace = trace w @ [Unlink p]\<rparr>))"

definition sys_rename :: "env \<Rightarrow> path \<Rightarrow> path \<Rightarrow> world \<Rightarrow> fs_error option \<times> world" where
  "sys_rename e src dst w =
     (case renameSync (denied e) src dst (disk w) of
        (r, d) \<Rightarrow> (r, \<lparr>disk = d, trace = trace w @ [Rename src dst]\<rparr>))"

definition sys_read :: "path \<Rightarrow> world \<Rightarrow> (fs_error + jsstring) \<times> world" where
  "sys_read p w = (readFileSync p (disk w), \<lparr>disk = disk w, trace = trace w @ [ReadF p]\<rparr>)"

definition sys_osascript :: "env \<Rightarrow> ascript \<Rightarrow> world \<Rightarrow> proc_result \<times> world" where
  "sys_osascript e a w = (osascript e a, \<lparr>disk = disk w, trace = trace w @ [Osascript a]\<rparr>)"

definition sys_sleep :: "nat \<Rightarrow> world \<Rightarrow> world" where
  "sys_sleep ms w = \<lparr>disk = disk w, trace = trace w @ [Sleep ms]\<rparr>"

subsection \<open>\<open>queueCommand\<close>\<close>

text \<open>
  The third argument of \<open>queueCommand\<close>, a description, is never used by the code and is
  left out. Any exception inside the \<open>try\<close> makes the result \<open>false\<close>.
\<close>

definition queueCommand :: "env \<Rightarrow> jsstring \<Rightarrow> string \<Rightarrow> world \<Rightarrow> bool \<times> world" where
  "queueCommand e c fileExtension w =
     (let queue = getBridgeQueueDir (HOME e) in
      case sys_mkdir e queue w of
        (Some err, w1) \<Rightarrow> (False, w1)
      | (None, w1) \<Rightarrow>
          (let fileName = dec (now_ms e) @ ''-'' @ random36 e @ ''.'' @ fileExtension;
               cmdFile = queue @ [fileName]
           in case sys_write e cmdFile (payload c) w1 of
                (Some err, w2) \<Rightarrow> (False, w2)
              | (None, w2) \<Rightarrow> (True, w2)))"

definition queueAudioImport :: "env \<Rightarrow> jsstring \<Rightarrow> world \<Rightarrow> bool \<times> world" where
  "queueAudioImport e filePath w = queueCommand e filePath ''cmd'' w"

definition queueScriptExecution :: "env \<Rightarrow> jsstring \<Rightarrow> world \<Rightarrow> bool \<times> world" where
  "queueScriptExecution e scriptContent w = queueCommand e scriptContent ''jsx'' w"

subsection \<open>\<open>isAERunning\<close>\<close>

text \<open>\<open>String.prototype.trim\<close> removes the same characters at both ends.\<close>

definition js_trim :: "jsstring \<Rightarrow> jsstring" where
  "js_trim s = dropWhile is_ws (rev (dropWhile is_ws (rev s)))"

definition isAERunning :: "env \<Rightarrow> world \<Rightarrow> bool \<times> world" where
  "isAERunning e w =
     (case sys_osascript e ExistsProcess w of
        (Exited code out err, w1) \<Rightarrow> (code = 0 \<and> js_trim out = js ''true'', w1)
      | (SpawnError, w1) \<Rightarrow> (False, w1))"

subsection \<open>\<open>runOnDemand\<close>\<close>

text \<open>What \<open>runOnDemand\<close> throws, and the text of each error it makes itself.\<close>

datatype js_error =
  NotRunning | AppleScriptExit nat | AppleScriptStderr jsstring | TimedOut
| Sys fs_error | Spawn

fun error_message :: "js_error \<Rightarrow> jsstring option" where
  "error_message NotRunning =
     Some (js ''After Effects is not running. Please open After Effects first.'')"
| "error_message (AppleScriptExit code) = Some (js (''AppleScript failed: '' @ dec code))"
| "error_message (AppleScriptStderr err) = Some (js ''AppleScript failed: '' @ err)"
| "error_message TimedOut = Some (js ''Timed out waiting for After Effects'')"
| "error_message (Sys x) = None"
| "error_message Spawn = None"

fun action :: "OnDemandCommand \<Rightarrow> string" where
  "action (ImportAudio p r) = ''import_audio''"
| "action (RunJsxText c) = ''run_jsx_text''"
| "action (RunJsxFile p) = ''run_jsx_file''"

text \<open>A path as the string \<open>path.join\<close> returns, and a name with a suffix appended.\<close>

definition render :: "path \<Rightarrow> jsstring" where
  "render p = js (concat (map (\<lambda>c. CHR ''/'' # c) p))"

definition add_suffix :: "path \<Rightarrow> string \<Rightarrow> path" where
  "add_suffix p s = (if p = [] then [s] else butlast p @ [last p @ s])"

text \<open>\<open>.replace(/"/g, '\\"')\<close> and \<open>.replace(/\\/g, "\\\\").replace(/'/g, "\\'")\<close>.\<close>

definition escape_dq :: "jsstring \<Rightarrow> jsstring" where
  "escape_dq s = concat (map (\<lambda>c. if c = 0x22 then [0x5C, 0x22] else [c]) s)"

definition escape_sq :: "jsstring \<Rightarrow> jsstring" where
  "escape_sq s =
     concat (map (\<lambda>c. if c = 0x27 then [0x5C, 0x27] else [c])
       (concat (map (\<lambda>c. if c = 0x5C then [0x5C, 0x5C] else [c]) s)))"

definition unlines :: "string list \<Rightarrow> string" where
  "unlines ls = concat (map (\<lambda>l. l @ [CHR 0x0A]) ls)"

definition sq :: "string \<Rightarrow> string" where
  "sq s = [CHR 0x27] @ s @ [CHR 0x27]"

text \<open>The script \<open>import_audio\<close> is converted to; the argument is the escaped path.\<close>

definition import_audio_jsx :: "jsstring \<Rightarrow> jsstring" where
  "import_audio_jsx escapedPath =
     js (unlines
       [[],
        ''(function() {'',
        ''  try {'',
        ''    var prj = app.project;'',
        ''    if (!prj) throw new Error(\"No project open\");'',
        ''    '']) @
     js ''    var io = new ImportOptions(new File('' @ [0x27] @ escapedPath @ [0x27] @
     js (unlines
       [''));'',
        ''    var footage = prj.importFile(io);'',
        ''    if (!footage) throw new Error(\"Failed to import file\");'',
        ''    '',
        ''    // Create or find Audio bin'',
        ''    var bin = null;'',
        ''    for (var i = 1; i <= prj.items.length; i++) {'',
        ''      var it = prj.items[i];'',
        ''      if (it instanceof FolderItem && it.name === '' @ sq ''Audio'' @ '') {'',
        ''        bin = it;'',
        ''        break;'',
        ''      }'',
        ''    }'',
        ''    if (!bin) {'',
        ''      bin = prj.items.addFolder('' @ sq ''Audio'' @ '');'',
        ''    }'',
        ''    try { footage.parentFolder = bin; } catch(_) {}'',
        ''    '',
        ''    // Add to active comp if one is open'',
        ''    var comp = prj.activeItem;'',
        ''    if (comp && comp instanceof CompItem) {'',
        ''      app.beginUndoGroup('' @ sq ''Add Audio'' @ '');'',
        ''      var layer = comp.layers.add(footage);'',
        ''      try {'',
        ''        layer.startTime = comp.time;'',
        ''      } catch(_) {}'',
        ''      app.endUndoGroup();'',
        ''    }'',
        ''  } catch(e) {'',
        ''    // Silent fail - logged elsewhere'',
        ''  }'',
        ''})();''])"

text \<open>
  The names \<open>runOnDemand\<close> computes first: the request id from the clock and the random
  suffix, \<open>process.env.HOME || os.homedir()\<close>, and the paths below it.
\<close>

definition requestId_of :: "env \<Rightarrow> string" where
  "requestId_of e = dec (now_ms e) @ ''-'' @ random36 e"

definition homeDir :: "env \<Rightarrow> path" where
  "homeDir e = (case HOME e of None \<Rightarrow> homedir e | Some p \<Rightarrow> p)"

definition bridgeDir :: "env \<Rightarrow> path" where
  "bridgeDir e = homeDir e @ [''Library'', ''Application Support'', ''raycast-ae-bridge'']"

definition jobsDir :: "env \<Rightarrow> path" where
  "jobsDir e = bridgeDir e @ [''jobs'']"

definition cmdPath_of :: "env \<Rightarrow> path" where
  "cmdPath_of e = jobsDir e @ [''rb_'' @ requestId_of e @ ''.json'']"

definition artifactPath_of :: "env \<Rightarrow> path" where
  "artifactPath_of e = jobsDir e @ [''rb_'' @ requestId_of e @ ''.done.json'']"

definition directJsxPath :: "env \<Rightarrow> path" where
  "directJsxPath e = jobsDir e @ [''rb_'' @ requestId_of e @ ''_direct.jsx'']"

definition inboxDir :: "env \<Rightarrow> path" where
  "inboxDir e =
     homeDir e @ [''Library'', ''Application Support'', ''raycast-ae-bridge'', ''inbox'']"

definition inboxCmdPath :: "env \<Rightarrow> path" where
  "inboxCmdPath e = inboxDir e @ [''cmd.json'']"

definition inboxCmdTmp :: "env \<Rightarrow> path" where
  "inboxCmdTmp e = add_suffix (inboxCmdPath e) ''.tmp''"

definition direct_result :: "string \<Rightarrow> OnDemandResult" where
  "direct_result rid =
     \<lparr>ok = True,
      result = Some \<lparr>requestId = rid, operation = ''direct'', elapsedMs = 0\<rparr>,
      error = None\<rparr>"

text \<open>
  The fast path writes the throwaway script (for \<open>run_jsx_file\<close> the given path is used
  as it is), runs it through AppleScript, and removes the throwaway script when the
  AppleScript run exited with 0.
\<close>

definition write_jsx :: "env \<Rightarrow> OnDemandCommand \<Rightarrow> world \<Rightarrow> (js_error + path) \<times> world" where
  "write_jsx e cmd w =
     (case cmd of
        RunJsxText code \<Rightarrow>
          (let jsxPath = directJsxPath e in
           case sys_write e jsxPath code w of
             (Some x, w1) \<Rightarrow> (Inl (Sys x), w1)
           | (None, w1) \<Rightarrow> (Inr jsxPath, w1))
      | RunJsxFile p \<Rightarrow> (Inr p, w)
      | ImportAudio p r \<Rightarrow>
          (let jsxCode = import_audio_jsx (escape_sq p);
               jsxPath = directJsxPath e
           in case sys_write e jsxPath jsxCode w of
                (Some x, w1) \<Rightarrow> (Inl (Sys x), w1)
              | (None, w1) \<Rightarrow> (Inr jsxPath, w1)))"

definition run_direct ::
  "env \<Rightarrow> OnDemandCommand \<Rightarrow> world \<Rightarrow> (js_error + OnDemandResult) \<times> world" where
  "run_direct e cmd w =
     (case write_jsx e cmd w of
        (Inl x, w1) \<Rightarrow> (Inl x, w1)
      | (Inr jsxPath, w1) \<Rightarrow>
          (case sys_osascript e (DoScriptFile (escape_dq (render jsxPath))) w1 of
             (SpawnError, w2) \<Rightarrow> (Inl Spawn, w2)
           | (Exited code out err, w2) \<Rightarrow>
               if code = 0
               then (Inr (direct_result (requestId_of e)),
                     if action cmd \<noteq> ''run_jsx_file'' then snd (sys_unlink e jsxPath w2) else w2)
               else (Inl (AppleScriptExit code), w2)))"

subsection \<open>The fallback of \<open>runOnDemand\<close>: inbox, listener, wait for the artifact\<close>

definition deadlineMs :: nat where
  "deadlineMs = 5000"

text \<open>The two nested \<open>try\<close> blocks that read the artifact or its \<open>.tmp\<close> variant.\<close>

definition read_artifact :: "path \<Rightarrow> world \<Rightarrow> jsstring option \<times> world" where
  "read_artifact artifactPath w =
     (case sys_read artifactPath w of
        (Inr txt, w1) \<Rightarrow> (Some txt, w1)
      | (Inl x, w1) \<Rightarrow>
          (case sys_read (add_suffix artifactPath ''.tmp'') w1 of
             (Inr txt, w2) \<Rightarrow> (Some txt, w2)
           | (Inl y, w2) \<Rightarrow> (None, w2)))"

text \<open>
  The clean-up after a parsed artifact: one \<open>try\<close> around the three \<open>unlinkSync\<close>
  calls, the third in a \<open>try\<close> of its own.
\<close>

definition clean_up :: "env \<Rightarrow> path \<Rightarrow> path \<Rightarrow> world \<Rightarrow> world" where
  "clean_up e cmdPath artifactPath w =
     (case sys_unlink e cmdPath w of
        (Some x, w1) \<Rightarrow> w1
      | (None, w1) \<Rightarrow>
          (case sys_unlink e artifactPath w1 of
             (Some x, w2) \<Rightarrow> w2
           | (None, w2) \<Rightarrow> snd (sys_unlink e (add_suffix artifactPath ''.tmp'') w2)))"

text \<open>
  The polling loop. \<open>t\<close> is the value of \<open>Date.now() - start\<close> when the condition of the
  loop is tested. A turn that finds nothing sleeps; the next test comes \<open>150 + lag e t\<close>
  milliseconds after this one (the timer does not fire early, and the clock is taken not
  to be set back). Before each look, and before the \<open>unlinkSync\<close> that follows the
  deadline, the disk is what the host has made of it by then; between a look and the
  clean-up that follows it the host is taken not to act.
\<close>

function awaitArtifact ::
  "env \<Rightarrow> path \<Rightarrow> path \<Rightarrow> nat \<Rightarrow> world \<Rightarrow> (js_error + OnDemandResult) \<times> world" where
  "awaitArtifact e cmdPath artifactPath t w =
     (if t < deadlineMs
      then
        (case read_artifact artifactPath \<lparr>disk = host_fs e t (disk w), trace = trace w\<rparr> of
           (None, w1) \<Rightarrow>
             awaitArtifact e cmdPath artifactPath (t + 150 + lag e t) (sys_sleep 150 w1)
         | (Some txt, w1) \<Rightarrow>
             (case json_parse e txt of
                None \<Rightarrow>
                  awaitArtifact e cmdPath artifactPath (t + 150 + lag e t) (sys_sleep 150 w1)
              | Some r \<Rightarrow> (Inr r, clean_up e cmdPath artifactPath w1)))
      else (Inl TimedOut,
            snd (sys_unlink e cmdPath \<lparr>disk = host_fs e t (disk w), trace = trace w\<rparr>)))"
  by pat_completeness auto
termination
  by (relation "measure (\<lambda>(e, cmdPath, artifactPath, t, w). deadlineMs - t)")
     (auto simp: deadlineMs_def)

declare awaitArtifact.simps [simp del]

definition queued_invocation ::
  "env \<Rightarrow> OnDemandCommand \<Rightarrow> world \<Rightarrow> (js_error + OnDemandResult) \<times> world" where
  "queued_invocation e cmd w =
     (let txt = json_stringify e cmd (requestId_of e) (artifactPath_of e)
      in case sys_mkdir e (inboxDir e) w of
           (Some x, w1) \<Rightarrow> (Inl (Sys x), w1)
         | (None, w1) \<Rightarrow>
      (case sys_write e (inboxCmdTmp e) txt w1 of
           (Some x, w2) \<Rightarrow> (Inl (Sys x), w2)
         | (None, w2) \<Rightarrow>
      (case sys_rename e (inboxCmdTmp e) (inboxCmdPath e) w2 of
           (Some x, w3) \<Rightarrow> (Inl (Sys x), w3)
         | (None, w3) \<Rightarrow>
      (case sys_write e (cmdPath_of e) txt w3 of
           (Some x, w4) \<Rightarrow> (Inl (Sys x), w4)
         | (None, w4) \<Rightarrow>
      (case sys_osascript e RunListener w4 of
           (SpawnError, w5) \<Rightarrow> (Inl Spawn, w5)
         | (Exited code out err, w5) \<Rightarrow>
             if code = 0 then awaitArtifact e (cmdPath_of e) (artifactPath_of e) 0 w5
             else (Inl (AppleScriptStderr err), w5))))))"

text \<open>
  \<open>runOnDemand\<close>. The two \<open>mkdirSync\<close> calls come before the \<open>try\<close>; an error thrown
  inside the \<open>try\<close> passes through the \<open>catch\<close>, which tries to remove the descriptor
  and throws the error again.
\<close>

definition runOnDemand ::
  "env \<Rightarrow> OnDemandCommand \<Rightarrow> world \<Rightarrow> (js_error + OnDemandResult) \<times> world" where
  "runOnDemand e cmd w =
     (case isAERunning e w of
        (False, w0) \<Rightarrow> (Inl NotRunning, w0)
      | (True, w0) \<Rightarrow>
          (case sys_mkdir e (bridgeDir e) w0 of
             (Some x, w1) \<Rightarrow> (Inl (Sys x), w1)
           | (None, w1) \<Rightarrow>
          (case sys_mkdir e (jobsDir e) w1 of
             (Some x, w2) \<Rightarrow> (Inl (Sys x), w2)
           | (None, w2) \<Rightarrow>
               (case (if action cmd = ''run_jsx_text'' \<or> action cmd = ''run_jsx_file''
                         \<or> action cmd = ''import_audio''
                      then run_direct e cmd w2
                      else queued_invocation e cmd w2) of
                  (Inl x, w3) \<Rightarrow> (Inl x, snd (sys_unlink e (cmdPath_of e) w3))
                | (Inr r, w3) \<Rightarrow> (Inr r, w3)))))"

subsection \<open>Reading a trace\<close>

text \<open>The system calls a run has added to the trace.\<close>

definition new_calls :: "world \<Rightarrow> world \<Rightarrow> syscall list" where
  "new_calls w w' = drop (length (trace w)) (trace w')"

text \<open>
  The calls only the fallback makes: a rename, a read, a sleep, the run of the listener,
  and a write to one of the given paths (the descriptor and the two inbox files).
\<close>

fun fallback_call :: "path list \<Rightarrow> syscall \<Rightarrow> bool" where
  "fallback_call ds (Write p c) = (p \<in> set ds)"
| "fallback_call ds (Rename a b) = True"
| "fallback_call ds (ReadF p) = True"
| "fallback_call ds (Sleep n) = True"
| "fallback_call ds (Osascript a) = (a = RunListener)"
| "fallback_call ds (Mkdir p) = False"
| "fallback_call ds (Unlink p) = False"

text \<open>The calls that put a file at a path: the writes and the renames.\<close>

fun places_file :: "syscall \<Rightarrow> bool" where
  "places_file (Write p c) = True"
| "places_file (Rename a b) = True"
| "places_file (Mkdir p) = False"
| "places_file (Unlink p) = False"
| "places_file (ReadF p) = False"
| "places_file (Sleep n) = False"
| "places_file (Osascript a) = False"

text \<open>
  For a polling loop entered at time \<open>t\<close> on disk \<open>d\<close>: the time at which the condition
  is tested for the \<open>k\<close>-th time (counting from 0) when every turn before has found
  nothing, and the disk at that moment.
\<close>

fun look_at :: "env \<Rightarrow> nat \<Rightarrow> nat \<Rightarrow> nat" where
  "look_at e t 0 = t"
| "look_at e t (Suc k) = look_at e (t + 150 + lag e t) k"

fun polls_from :: "env \<Rightarrow> nat \<Rightarrow> fs \<Rightarrow> nat \<Rightarrow> fs" where
  "polls_from e t d 0 = host_fs e t d"
| "polls_from e t d (Suc k) = polls_from e (t + 150 + lag e t) (host_fs e t d) k"

text \<open>What one look finds on a disk: the parsed artifact, if there is one to read and parse.\<close>

definition found :: "env \<Rightarrow> path \<Rightarrow> fs \<Rightarrow> OnDemandResult option" where
  "found e artifactPath d =
     (case readFileSync artifactPath d of
        Inr txt \<Rightarrow> json_parse e txt
      | Inl x \<Rightarrow>
          (case readFileSync (add_suffix artifactPath ''.tmp'') d of
             Inr txt \<Rightarrow> json_parse e txt
           | Inl y \<Rightarrow> None))"

text \<open>The files a tick has opened, and the number of imports and evaluations it has made.\<close>

fun opened :: "event list \<Rightarrow> string list" where
  "opened [] = []"
| "opened (Opened n # evs) = n # opened evs"
| "opened (ev # evs) = opened evs"

fun dispatches :: "event list \<Rightarrow> nat" where
  "dispatches [] = 0"
| "dispatches (Imported p # evs) = Suc (dispatches evs)"
| "dispatches (Evaluated c # evs) = Suc (dispatches evs)"
| "dispatches (ev # evs) = dispatches evs"

subsection \<open>Notions for the proof that a second installation changes nothing\<close>

text \<open>
  A disk is tree-shaped when every entry has a name and lies in a directory.
  \<open>dir_children b d\<close> lists the sub-directories of \<open>b\<close> in directory order; it is what
  \<open>discoverAETargets\<close> takes as the versions of \<open>b\<close>. \<open>kept\<close> relates a disk to a later
  one on which directories are still directories, files are still files, the files that
  hold the bridge script still hold it, and denied paths that were absent are still
  absent; \<open>added\<close> relates a disk to a later one whose entries are the old ones, in the
  old order, followed by new ones that all satisfy a given property.
\<close>

definition wf_disk :: "fs \<Rightarrow> bool" where
  "wf_disk d \<longleftrightarrow> (\<forall>k \<in> set (map fst d). k \<noteq> [] \<and> is_dir d (butlast k))"

definition dir_children :: "path \<Rightarrow> fs \<Rightarrow> string list" where
  "dir_children b d =
     map last (filter (\<lambda>k. k \<noteq> [] \<and> butlast k = b \<and> map_of d k = Some Dir) (map fst d))"

definition kept :: "(path \<Rightarrow> bool) \<Rightarrow> jsstring \<Rightarrow> fs \<Rightarrow> fs \<Rightarrow> bool" where
  "kept dn code d d' \<longleftrightarrow>
     (\<forall>q. map_of d q = Some Dir \<longrightarrow> map_of d' q = Some Dir) \<and>
     (\<forall>q c. map_of d q = Some (File c) \<longrightarrow> (\<exists>c'. map_of d' q = Some (File c'))) \<and>
     (\<forall>q. map_of d q = Some (File (toWellFormed code))
          \<longrightarrow> map_of d' q = Some (File (toWellFormed code))) \<and>
     (\<forall>q. map_of d q = None \<and> dn q \<longrightarrow> map_of d' q = None)"

definition added :: "(path \<Rightarrow> bool) \<Rightarrow> fs \<Rightarrow> fs \<Rightarrow> bool" where
  "added Q d d' \<longleftrightarrow>
     (\<exists>new. map fst d' = map fst d @ new \<and> (\<forall>k \<in> set new. Q k) \<and> distinct new
            \<and> set new \<inter> set (map fst d) = {})"


section \<open>Properties of the bridge script\<close>

subsection \<open>Reading back what the submitter wrote\<close>

lemma rbStrip_payload: "rbStrip (payload c) = rbStrip c"
  by (simp add: rbStrip_def payload_def is_ws_def)

lemma rbStrip_id_iff: "rbStrip c = c \<longleftrightarrow> c = [] \<or> \<not> is_ws (last c)"
proof (cases c rule: rev_cases)
  case Nil
  then show ?thesis by (simp add: rbStrip_def)
next
  case (snoc ys y)
  show ?thesis
  proof (cases "is_ws y")
    case True
    have "length (rbStrip c) \<le> length ys"
      using snoc True length_dropWhile_le [of is_ws "rev ys"] by (simp add: rbStrip_def)
    then have "rbStrip c \<noteq> c" using snoc by auto
    then show ?thesis using snoc True by simp
  next
    case False
    then show ?thesis using snoc by (simp add: rbStrip_def)
  qed
qed

lemma rbStrip_is_prefix: "\<exists>ys. s = rbStrip s @ ys"
proof -
  have "rev (takeWhile is_ws (rev s) @ dropWhile is_ws (rev s)) = rev (rev s)"
    by (simp only: takeWhile_dropWhile_id)
  then have "rev (dropWhile is_ws (rev s)) @ rev (takeWhile is_ws (rev s)) = s"
    by (simp only: rev_append rev_rev_ident)
  then have "s = rbStrip s @ rev (takeWhile is_ws (rev s))"
    by (simp only: rbStrip_def)
  then show ?thesis ..
qed

lemma toWellFormed_length: "length (toWellFormed s) = length s"
  by (induction s rule: toWellFormed.induct) simp_all

lemma toWellFormed_snoc:
  "\<not> is_lead a \<Longrightarrow> \<not> is_trail a \<Longrightarrow> toWellFormed (s @ [a]) = toWellFormed s @ [a]"
  by (induction s rule: toWellFormed.induct) simp_all

lemma toWellFormed_payload: "toWellFormed (payload c) = payload (toWellFormed c)"
  unfolding payload_def by (rule toWellFormed_snoc) (simp_all add: is_lead_def is_trail_def)

lemma rbStrip_written_iff:
  "rbStrip (toWellFormed c) = c \<longleftrightarrow> toWellFormed c = c \<and> (c = [] \<or> \<not> is_ws (last c))"
proof
  assume a: "rbStrip (toWellFormed c) = c"
  obtain ys where ys: "toWellFormed c = rbStrip (toWellFormed c) @ ys"
    using rbStrip_is_prefix [of "toWellFormed c"] by blast
  then have "length (toWellFormed c) = length c + length ys" using a by (metis length_append)
  then have "ys = []" by (simp add: toWellFormed_length)
  then have w: "toWellFormed c = c" using ys a by simp
  then have "rbStrip c = c" using a by simp
  then show "toWellFormed c = c \<and> (c = [] \<or> \<not> is_ws (last c))"
    using w by (simp add: rbStrip_id_iff)
next
  assume "toWellFormed c = c \<and> (c = [] \<or> \<not> is_ws (last c))"
  then show "rbStrip (toWellFormed c) = c" by (simp add: rbStrip_id_iff)
qed

lemma writeFileSync_lookup:
  "writeFileSync dn p c d = (None, d') \<Longrightarrow> readFileSync p d' = Inr (toWellFormed c)"
  by (auto simp: writeFileSync_def readFileSync_def update_conv' split: if_splits)

text \<open>
  C1, as stated, fails: \<open>queueCommand\<close> appends a newline and the read step of
  \<open>rbProcess\<close> removes every trailing whitespace character, so a content that itself
  ends in whitespace comes back shorter. For the path \<open>/tmp/a.wav\<close> followed by a space
  the file holds the path, the space and the newline, and the read step returns
  \<open>/tmp/a.wav\<close>.
\<close>

theorem payload_round_trip_counterexample:
  "toWellFormed (payload (js ''/tmp/a.wav '')) = payload (js ''/tmp/a.wav '')
   \<and> rbStrip (payload (js ''/tmp/a.wav '')) = js ''/tmp/a.wav''
   \<and> js ''/tmp/a.wav'' \<noteq> js ''/tmp/a.wav ''"
proof (intro conjI)
  show "toWellFormed (payload (js ''/tmp/a.wav '')) = payload (js ''/tmp/a.wav '')"
    by (simp add: payload_def js_def is_lead_def is_trail_def)
  show "rbStrip (payload (js ''/tmp/a.wav '')) = js ''/tmp/a.wav''"
    by (simp add: rbStrip_def payload_def js_def is_ws_def)
  show "js ''/tmp/a.wav'' \<noteq> js ''/tmp/a.wav ''"
    by (simp add: js_def)
qed

text \<open>
  C1, amended: when \<open>queueCommand\<close> succeeds, the queue file holds the content plus a
  newline, as the UTF-8 encoder has written it. The read step of the consumer recovers the
  content unchanged exactly when the content holds no unpaired surrogate (the encoder
  leaves it as it is) and is empty or does not end in a whitespace character (\<open>\s\<close>);
  this holds for both queue file kinds and whatever other characters, control characters
  included, the content holds. In every case what the read step returns is the content
  as the encoder has written it, without its trailing whitespace.
\<close>

theorem queue_payload_round_trip:
  assumes "queueCommand e c ext w = (True, w')"
  shows "readFileSync
           (getBridgeQueueDir (HOME e) @ [dec (now_ms e) @ ''-'' @ random36 e @ ''.'' @ ext])
           (disk w') = Inr (toWellFormed (payload c))
         \<and> (rbStrip (toWellFormed (payload c)) = c
              \<longleftrightarrow> toWellFormed c = c \<and> (c = [] \<or> \<not> is_ws (last c)))
         \<and> rbStrip (toWellFormed (payload c)) = rbStrip (toWellFormed c)"
proof -
  have 1: "readFileSync
           (getBridgeQueueDir (HOME e) @ [dec (now_ms e) @ ''-'' @ random36 e @ ''.'' @ ext])
           (disk w') = Inr (toWellFormed (payload c))"
    using assms
    by (auto simp: queueCommand_def Let_def sys_mkdir_def sys_write_def
        split: prod.splits option.splits dest: writeFileSync_lookup)
  have 3: "rbStrip (toWellFormed (payload c)) = rbStrip (toWellFormed c)"
    by (simp only: toWellFormed_payload rbStrip_payload)
  have 2: "rbStrip (toWellFormed (payload c)) = c
              \<longleftrightarrow> toWellFormed c = c \<and> (c = [] \<or> \<not> is_ws (last c))"
    unfolding 3 by (rule rbStrip_written_iff)
  show ?thesis by (intro conjI 1 2 3)
qed

text \<open>
  Witness for C1, amended: a script text with a control character (a tab) inside, a
  surrogate pair at its end and no whitespace there, queued on an empty disk, is written
  and read back unchanged.
\<close>

theorem queue_payload_round_trip_witness:
  "readFileSync [''Users'', ''u'', ''Library'', ''Application Support'', ''raycast-ae-bridge'',
                 ''queue'', ''17-k3.jsx'']
     (disk (snd (queueCommand
        \<lparr>HOME = Some [''Users'', ''u''], homedir = [''Users'', ''u''], denied = (\<lambda>p. False),
         now_ms = 17, random36 = ''k3'', osascript = (\<lambda>a. SpawnError),
         json_parse = (\<lambda>s. None), json_stringify = (\<lambda>c r p. []), host_fs = (\<lambda>t d. d),
         lag = (\<lambda>t. 0)\<rparr>
        [0x61, 0x09, 0xD83D, 0xDE00] ''jsx'' \<lparr>disk = [], trace = []\<rparr>)))
     = Inr [0x61, 0x09, 0xD83D, 0xDE00, 0x0A]
   \<and> rbStrip [0x61, 0x09, 0xD83D, 0xDE00, 0x0A] = [0x61, 0x09, 0xD83D, 0xDE00]"
proof -
  let ?e = "\<lparr>HOME = Some [''Users'', ''u''], homedir = [''Users'', ''u''], denied = (\<lambda>p. False),
         now_ms = 17, random36 = ''k3'', osascript = (\<lambda>a. SpawnError),
         json_parse = (\<lambda>s. None), json_stringify = (\<lambda>c r p. []), host_fs = (\<lambda>t d. d),
         lag = (\<lambda>t. 0)\<rparr>"
  let ?w = "\<lparr>disk = [], trace = []\<rparr>"
  let ?c = "[0x61, 0x09, 0xD83D, 0xDE00] :: jsstring"
  have d: "dec 17 = ''17''" by code_simp
  have t: "toWellFormed (payload ?c) = [0x61, 0x09, 0xD83D, 0xDE00, 0x0A]"
    by (simp add: payload_def is_lead_def is_trail_def)
  have ok: "fst (queueCommand ?e ?c ''jsx'' ?w) = True"
    by (simp add: queueCommand_def Let_def sys_mkdir_def sys_write_def mkdirSync_def
          getBridgeQueueDir_def home_or_tilde_def writeFileSync_def is_dir_def d)
  then have "queueCommand ?e ?c ''jsx'' ?w = (True, snd (queueCommand ?e ?c ''jsx'' ?w))"
    by (simp only: prod_eq_iff fst_conv snd_conv simp_thms)
  from queue_payload_round_trip [OF this] show ?thesis
    unfolding t
    by (simp add: getBridgeQueueDir_def home_or_tilde_def d is_ws_def is_lead_def is_trail_def)
qed

subsection \<open>The stop flag\<close>

text \<open>
  C2: a tick that finds the stop flag in the queue folder returns at once. The queue
  folder after the tick is the queue folder before it (the folder exists, since the flag
  is in it, so \<open>rbEnsureDir\<close> creates nothing), and the tick has opened, imported,
  evaluated and removed nothing; \<open>rbProcess\<close> contains no sweep.
\<close>

theorem stop_flag_tick_no_mutation: "stop_exists q \<Longrightarrow> rbProcess h q = (q, [])"
  by (cases q) (auto simp: rbProcess_def rbEnsureDir_def stop_exists_def)

text \<open>
  Witness for C2: the flag next to a valid command file that is older than five minutes;
  the host would import it.
\<close>

theorem stop_flag_tick_no_mutation_witness:
  "stop_exists
     (Some [\<lparr>fname = ''STOP_BRIDGE.txt'', is_file = True, modified = 0, content = Some []\<rparr>,
            \<lparr>fname = ''1.cmd'', is_file = True, modified = 0,
             content = Some (payload (js ''/tmp/a.wav''))\<rparr>])
   \<and> rbProcess
       \<lparr>project = True, activeItem = CompItem 0, importFile = (\<lambda>p. Footage),
        addLayer_throws = False, eval_throws = (\<lambda>c. False),
        eval_rebinds_f = (\<lambda>c. False)\<rparr>
       (Some [\<lparr>fname = ''STOP_BRIDGE.txt'', is_file = True, modified = 0, content = Some []\<rparr>,
              \<lparr>fname = ''1.cmd'', is_file = True, modified = 0,
               content = Some (payload (js ''/tmp/a.wav''))\<rparr>])
     = (Some [\<lparr>fname = ''STOP_BRIDGE.txt'', is_file = True, modified = 0, content = Some []\<rparr>,
              \<lparr>fname = ''1.cmd'', is_file = True, modified = 0,
               content = Some (payload (js ''/tmp/a.wav''))\<rparr>], [])"
proof -
  have h: "stop_exists
     (Some [\<lparr>fname = ''STOP_BRIDGE.txt'', is_file = True, modified = 0, content = Some []\<rparr>,
            \<lparr>fname = ''1.cmd'', is_file = True, modified = 0,
             content = Some (payload (js ''/tmp/a.wav''))\<rparr>])"
    by (simp add: stop_exists_def)
  show ?thesis by (rule conjI [OF h stop_flag_tick_no_mutation [OF h]])
qed

subsection \<open>The sweep of old files\<close>

lemma sweep_filter:
  "sweep now fs dir =
     filter (\<lambda>e. \<forall>f \<in> set fs. now - modified f > maxAge \<longrightarrow> fname e \<noteq> fname f) dir"
proof (induction fs arbitrary: dir)
  case Nil
  then show ?case by simp
next
  case (Cons a fs)
  show ?case by (auto simp: Cons.IH remove_entry_def intro!: filter_cong)
qed

lemma getFiles_all: "getFiles [] dir = dir"
  by (simp add: getFiles_def ends_with_def)

lemma sweep_distinct:
  assumes "distinct (map fname dir)"
  shows "sweep now dir dir = filter (\<lambda>e. \<not> now - modified e > maxAge) dir"
  unfolding sweep_filter
proof (rule filter_cong [OF refl])
  fix x assume x: "x \<in> set dir"
  have "\<And>f. f \<in> set dir \<Longrightarrow> fname f = fname x \<Longrightarrow> f = x"
    using assms x by (meson distinct_map inj_onD)
  then show "(\<forall>f\<in>set dir. maxAge < now - modified f \<longrightarrow> fname x \<noteq> fname f)
               = (\<not> maxAge < now - modified x)"
    using x by auto
qed

lemma tick_removes_at_most_selected:
  "fst (rbProcess h (Some dir)) = Some dir \<or>
   (\<exists>f. selected dir = Some f \<and> fst (rbProcess h (Some dir)) = Some (remove_entry f dir))"
  by (auto simp: rbProcess_def rbEnsureDir_def selected_def Let_def
      split: list.splits option.splits prod.splits)

text \<open>
  C3, as stated, fails: \<open>rbProcess\<close> never looks at the age of a file. With no stop flag
  and no selection, a tick on a queue of two script files evaluates and removes the first
  and leaves the second, which is 1000000 ms old, where it is.
\<close>

theorem tick_ttl_counterexample:
  "(1000000::int)
     - modified \<lparr>fname = ''2.jsx'', is_file = True, modified = 0,
                 content = Some (payload (js ''alert(2)''))\<rparr> > maxAge
   \<and> \<not> stop_exists
         (Some [\<lparr>fname = ''1.jsx'', is_file = True, modified = 900000,
                 content = Some (payload (js ''alert(1)''))\<rparr>,
                \<lparr>fname = ''2.jsx'', is_file = True, modified = 0,
                 content = Some (payload (js ''alert(2)''))\<rparr>])
   \<and> fst (rbProcess
        \<lparr>project = True, activeItem = NoItem, importFile = (\<lambda>p. Footage),
         addLayer_throws = False, eval_throws = (\<lambda>c. False),
         eval_rebinds_f = (\<lambda>c. False)\<rparr>
        (Some [\<lparr>fname = ''1.jsx'', is_file = True, modified = 900000,
                content = Some (payload (js ''alert(1)''))\<rparr>,
               \<lparr>fname = ''2.jsx'', is_file = True, modified = 0,
                content = Some (payload (js ''alert(2)''))\<rparr>]))
     = Some [\<lparr>fname = ''2.jsx'', is_file = True, modified = 0,
              content = Some (payload (js ''alert(2)''))\<rparr>]"
  by (simp add: maxAge_def stop_exists_def rbProcess_def rbEnsureDir_def user_selection_def
        allFiles_def getFiles_def ends_with_def rbStrip_def payload_def js_def is_ws_def
        final_ok_def remove_entry_def f_intact_def)

text \<open>
  C3, amended: the sweep runs once, when the host loads the script at startup, and not in
  a tick. At that moment it removes every entry of the queue folder that is more than
  five minutes old, valid and unprocessed or not, and keeps the others. A tick removes
  nothing but the one file it has dispatched with success.
\<close>

theorem startup_sweep_only:
  assumes "distinct (map fname dir)"
  shows "rbCleanupOldFiles now (Some dir)
           = Some (filter (\<lambda>f. \<not> now - modified f > maxAge) dir)
         \<and> bridge_script now [] (Some dir) = rbCleanupOldFiles now (Some dir)
         \<and> (fst (rbProcess h (Some dir)) = Some dir \<or>
            (\<exists>f. selected dir = Some f
                  \<and> fst (rbProcess h (Some dir)) = Some (remove_entry f dir)))"
  using assms tick_removes_at_most_selected [of h dir]
  by (simp add: rbCleanupOldFiles_def rbEnsureDir_def getFiles_all sweep_distinct
        bridge_script_def)

text \<open>
  Witness for C3, amended: of an old and a fresh file the sweep keeps the fresh one.
\<close>

theorem startup_sweep_only_witness:
  "distinct (map fname
     [\<lparr>fname = ''1.jsx'', is_file = True, modified = 900000,
       content = Some (payload (js ''alert(1)''))\<rparr>,
      \<lparr>fname = ''2.jsx'', is_file = True, modified = 0,
       content = Some (payload (js ''alert(2)''))\<rparr>])
   \<and> rbCleanupOldFiles 1000000
       (Some [\<lparr>fname = ''1.jsx'', is_file = True, modified = 900000,
               content = Some (payload (js ''alert(1)''))\<rparr>,
              \<lparr>fname = ''2.jsx'', is_file = True, modified = 0,
               content = Some (payload (js ''alert(2)''))\<rparr>])
     = Some [\<lparr>fname = ''1.jsx'', is_file = True, modified = 900000,
              content = Some (payload (js ''alert(1)''))\<rparr>]"
proof -
  have h: "distinct (map fname
     [\<lparr>fname = ''1.jsx'', is_file = True, modified = 900000,
       content = Some (payload (js ''alert(1)''))\<rparr>,
      \<lparr>fname = ''2.jsx'', is_file = True, modified = 0,
       content = Some (payload (js ''alert(2)''))\<rparr>])"
    by simp
  from startup_sweep_only [OF h, of 1000000] h show ?thesis
    by (simp add: maxAge_def)
qed


subsection \<open>What a tick selects and what it removes\<close>

lemma rbDispatch_events:
  "dispatches (snd (rbDispatch h ty c)) \<le> 1 \<and> opened (snd (rbDispatch h ty c)) = []"
  by (cases ty) (auto split: import_result.splits active_item.splits)

lemma rbDispatch_eventsD:
  "rbDispatch h ty c = (r, evs) \<Longrightarrow> dispatches evs \<le> 1 \<and> opened evs = []"
  using rbDispatch_events [of h ty c] by simp

lemma opened_append: "opened (xs @ ys) = opened xs @ opened ys"
  by (induction xs rule: opened.induct) simp_all

lemma dispatches_append: "dispatches (xs @ ys) = dispatches xs + dispatches ys"
  by (induction xs rule: dispatches.induct) simp_all

text \<open>
  C7 fails on the code, which removes the file only when \<open>ok\<close> has been set and \<open>f\<close> is
  still the file. A dispatch can complete with neither an exception nor a removal:
  \<^item> a command file whose media is imported while no composition is active: \<open>ok\<close> is set
    only in the branch that adds the layer, so the import has happened, nothing was
    thrown, the file stays, and the next tick imports the same media again;
  \<^item> a script \<open>var f = 1;\<close>: it is evaluated without an exception and \<open>ok\<close> is set, but
    the \<open>f.remove()\<close> that follows no longer reaches the file, so the file stays and the
    next tick evaluates it again.
\<close>

theorem completed_dispatch_keeps_file:
  "rbProcess
     \<lparr>project = True, activeItem = NoItem, importFile = (\<lambda>p. Footage),
      addLayer_throws = False, eval_throws = (\<lambda>c. False),
      eval_rebinds_f = (\<lambda>c. c = js ''var f = 1;'')\<rparr>
     (Some [\<lparr>fname = ''1.cmd'', is_file = True, modified = 0,
             content = Some (payload (js ''/tmp/a.wav''))\<rparr>])
     = (Some [\<lparr>fname = ''1.cmd'', is_file = True, modified = 0,
               content = Some (payload (js ''/tmp/a.wav''))\<rparr>],
        [Opened ''1.cmd'', Imported (js ''/tmp/a.wav'')])
   \<and> rbDispatch
       \<lparr>project = True, activeItem = NoItem, importFile = (\<lambda>p. Footage),
        addLayer_throws = False, eval_throws = (\<lambda>c. False),
        eval_rebinds_f = (\<lambda>c. c = js ''var f = 1;'')\<rparr> Cmd (js ''/tmp/a.wav'')
     = (Finished False, [Imported (js ''/tmp/a.wav'')])
   \<and> rbProcess
       \<lparr>project = True, activeItem = NoItem, importFile = (\<lambda>p. Footage),
        addLayer_throws = False, eval_throws = (\<lambda>c. False),
        eval_rebinds_f = (\<lambda>c. c = js ''var f = 1;'')\<rparr>
       (Some [\<lparr>fname = ''1.jsx'', is_file = True, modified = 0,
               content = Some (payload (js ''var f = 1;''))\<rparr>])
     = (Some [\<lparr>fname = ''1.jsx'', is_file = True, modified = 0,
               content = Some (payload (js ''var f = 1;''))\<rparr>],
        [Opened ''1.jsx'', Evaluated (js ''var f = 1;'')])
   \<and> rbDispatch
       \<lparr>project = True, activeItem = NoItem, importFile = (\<lambda>p. Footage),
        addLayer_throws = False, eval_throws = (\<lambda>c. False),
        eval_rebinds_f = (\<lambda>c. c = js ''var f = 1;'')\<rparr> Jsx (js ''var f = 1;'')
     = (Finished True, [Evaluated (js ''var f = 1;'')])"
  by (simp add: stop_exists_def rbProcess_def rbEnsureDir_def user_selection_def
        allFiles_def getFiles_def ends_with_def rbStrip_def payload_def js_def is_ws_def
        final_ok_def remove_entry_def f_intact_def)

text \<open>
  C8, as stated, fails: the file taken is \<open>allFiles[0]\<close>, the first entry of the
  \<open>*.cmd\<close> listing when there is one, whatever its age. With a script file modified at
  1000 and a command file modified at 2000 in the queue, the tick opens the command
  file, which is the younger of the two.
\<close>

theorem selected_not_oldest_counterexample:
  "selected
     [\<lparr>fname = ''old.jsx'', is_file = True, modified = 1000,
       content = Some (payload (js ''alert(1)''))\<rparr>,
      \<lparr>fname = ''new.cmd'', is_file = True, modified = 2000,
       content = Some (payload (js ''/tmp/a.wav''))\<rparr>]
     = Some \<lparr>fname = ''new.cmd'', is_file = True, modified = 2000,
             content = Some (payload (js ''/tmp/a.wav''))\<rparr>
   \<and> modified \<lparr>fname = ''old.jsx'', is_file = True, modified = 1000,
                content = Some (payload (js ''alert(1)''))\<rparr>
       < modified \<lparr>fname = ''new.cmd'', is_file = True, modified = 2000,
                   content = Some (payload (js ''/tmp/a.wav''))\<rparr>
   \<and> opened (snd (rbProcess
       \<lparr>project = True, activeItem = CompItem 0, importFile = (\<lambda>p. Footage),
        addLayer_throws = False, eval_throws = (\<lambda>c. False),
        eval_rebinds_f = (\<lambda>c. False)\<rparr>
       (Some [\<lparr>fname = ''old.jsx'', is_file = True, modified = 1000,
               content = Some (payload (js ''alert(1)''))\<rparr>,
              \<lparr>fname = ''new.cmd'', is_file = True, modified = 2000,
               content = Some (payload (js ''/tmp/a.wav''))\<rparr>]))) = [''new.cmd'']"
  by (simp add: selected_def stop_exists_def rbProcess_def rbEnsureDir_def user_selection_def
        allFiles_def getFiles_def ends_with_def rbStrip_def payload_def js_def is_ws_def
        final_ok_def remove_entry_def f_intact_def)

text \<open>
  C8, amended: a tick selects at most one file, the first entry of the \<open>*.cmd\<close> listing
  or, when there is no command file, the first entry of the \<open>*.jsx\<close> listing, in the
  order of the folder listing and whatever the modification times. The tick opens no
  file but the selected one and makes at most one import or evaluation.
\<close>

theorem tick_selects_first_listed:
  "selected dir
     = (case getFiles ''.cmd'' dir of
          f # fs \<Rightarrow> Some f
        | [] \<Rightarrow> (case getFiles ''.jsx'' dir of f # fs \<Rightarrow> Some f | [] \<Rightarrow> None))
   \<and> (opened (snd (rbProcess h (Some dir))) = []
      \<or> (\<exists>f. selected dir = Some f \<and> opened (snd (rbProcess h (Some dir))) = [fname f]))
   \<and> dispatches (snd (rbProcess h (Some dir))) \<le> 1"
proof -
  have 1: "selected dir
     = (case getFiles ''.cmd'' dir of
          f # fs \<Rightarrow> Some f
        | [] \<Rightarrow> (case getFiles ''.jsx'' dir of f # fs \<Rightarrow> Some f | [] \<Rightarrow> None))"
    by (simp add: selected_def allFiles_def split: list.splits)
  have 2: "opened (snd (rbProcess h (Some dir))) = []
      \<or> (\<exists>f. selected dir = Some f \<and> opened (snd (rbProcess h (Some dir))) = [fname f])"
    by (auto simp: rbProcess_def rbEnsureDir_def selected_def Let_def opened_append
        split: list.splits option.splits prod.splits dest: rbDispatch_eventsD)
  have 3: "dispatches (snd (rbProcess h (Some dir))) \<le> 1"
    by (auto simp: rbProcess_def rbEnsureDir_def Let_def dispatches_append
        split: list.splits option.splits prod.splits dest: rbDispatch_eventsD)
  from 1 2 3 show ?thesis by blast
qed


section \<open>Properties of the control process\<close>

subsection \<open>The host is not running\<close>

lemma isAERunning_trace:
  "snd (isAERunning e w) = \<lparr>disk = disk w, trace = trace w @ [Osascript ExistsProcess]\<rparr>"
  by (simp add: isAERunning_def sys_osascript_def split: proc_result.splits)

lemma isAERunning_fail_closed:
  "fst (isAERunning e w) \<longleftrightarrow> (\<exists>out err. osascript e ExistsProcess = Exited 0 out err \<and> js_trim out = js ''true'')"
  by (auto simp add: isAERunning_def sys_osascript_def split: proc_result.splits)

lemma not_running_message_distinct:
  "error_message NotRunning \<noteq> error_message TimedOut"
  "error_message NotRunning \<noteq> error_message (AppleScriptExit n)"
  "error_message NotRunning \<noteq> error_message (AppleScriptStderr s)"
  "error_message NotRunning \<noteq> error_message (Sys x)"
  "error_message NotRunning \<noteq> error_message Spawn"
  by (simp_all add: js_def)

text \<open>
  C4: when the probe does not report the host as running, \<open>runOnDemand\<close> throws the
  not-running error before anything else happens. The disk is as it was (no throwaway
  script, no descriptor, no directory), and the only process spawned is the query to
  System Events, which does not address After Effects and so cannot launch it. The
  text of the error differs from the text of every other error \<open>runOnDemand\<close> makes.
\<close>

theorem not_running_fails_fast:
  assumes "\<not> fst (isAERunning e w)"
  shows "runOnDemand e cmd w
           = (Inl NotRunning, \<lparr>disk = disk w, trace = trace w @ [Osascript ExistsProcess]\<rparr>)
         \<and> error_message NotRunning \<noteq> error_message TimedOut
         \<and> error_message NotRunning \<noteq> error_message (AppleScriptExit n)
         \<and> error_message NotRunning \<noteq> error_message (AppleScriptStderr s)
         \<and> error_message NotRunning \<noteq> error_message (Sys x)
         \<and> error_message NotRunning \<noteq> error_message Spawn"
proof -
  have "isAERunning e w = (False, \<lparr>disk = disk w, trace = trace w @ [Osascript ExistsProcess]\<rparr>)"
    using assms isAERunning_trace [of e w] by (simp add: prod_eq_iff)
  then have "runOnDemand e cmd w
           = (Inl NotRunning, \<lparr>disk = disk w, trace = trace w @ [Osascript ExistsProcess]\<rparr>)"
    by (simp add: runOnDemand_def)
  then show ?thesis using not_running_message_distinct by simp
qed

text \<open>
  Witness for C4: the probe prints \<open>false\<close>; a script text is submitted on an empty disk.
\<close>

theorem not_running_fails_fast_witness:
  "\<not> fst (isAERunning
       \<lparr>HOME = Some [''Users'', ''u''], homedir = [''Users'', ''u''], denied = (\<lambda>p. False),
        now_ms = 17, random36 = ''k3'',
        osascript = (\<lambda>a. Exited 0 (js ''false'' @ [0x0A]) []),
        json_parse = (\<lambda>s. None), json_stringify = (\<lambda>c r p. []), host_fs = (\<lambda>t d. d),
         lag = (\<lambda>t. 0)\<rparr>
       \<lparr>disk = [], trace = []\<rparr>)
   \<and> runOnDemand
       \<lparr>HOME = Some [''Users'', ''u''], homedir = [''Users'', ''u''], denied = (\<lambda>p. False),
        now_ms = 17, random36 = ''k3'',
        osascript = (\<lambda>a. Exited 0 (js ''false'' @ [0x0A]) []),
        json_parse = (\<lambda>s. None), json_stringify = (\<lambda>c r p. []), host_fs = (\<lambda>t d. d),
         lag = (\<lambda>t. 0)\<rparr>
       (RunJsxText (js ''alert(1)'')) \<lparr>disk = [], trace = []\<rparr>
     = (Inl NotRunning, \<lparr>disk = [], trace = [Osascript ExistsProcess]\<rparr>)"
proof -
  let ?e = "\<lparr>HOME = Some [''Users'', ''u''], homedir = [''Users'', ''u''], denied = (\<lambda>p. False),
        now_ms = 17, random36 = ''k3'',
        osascript = (\<lambda>a. Exited 0 (js ''false'' @ [0x0A]) []),
        json_parse = (\<lambda>s. None), json_stringify = (\<lambda>c r p. []), host_fs = (\<lambda>t d. d),
         lag = (\<lambda>t. 0)\<rparr>"
  let ?w = "\<lparr>disk = [], trace = []\<rparr>"
  have h: "\<not> fst (isAERunning ?e ?w)"
    by (simp add: isAERunning_def sys_osascript_def js_trim_def js_def is_ws_def)
  have "runOnDemand ?e (RunJsxText (js ''alert(1)'')) ?w
          = (Inl NotRunning, \<lparr>disk = disk ?w, trace = trace ?w @ [Osascript ExistsProcess]\<rparr>)"
    by (rule not_running_fails_fast [OF h, THEN conjunct1])
  then have "runOnDemand ?e (RunJsxText (js ''alert(1)'')) ?w
          = (Inl NotRunning, \<lparr>disk = [], trace = [Osascript ExistsProcess]\<rparr>)"
    by simp
  with h show ?thesis by (rule conjI)
qed

subsection \<open>The fast path is the only path\<close>

lemma new_calls_append [simp]: "new_calls w \<lparr>disk = d, trace = trace w @ xs\<rparr> = xs"
  by (simp add: new_calls_def)

lemma action_cases:
  "action cmd = ''run_jsx_text'' \<or> action cmd = ''run_jsx_file'' \<or> action cmd = ''import_audio''"
  by (cases cmd) simp_all

lemma paths_distinct:
  "directJsxPath e \<noteq> cmdPath_of e"
  "directJsxPath e \<noteq> inboxCmdPath e"
  "directJsxPath e \<noteq> inboxCmdTmp e"
  by (simp_all add: directJsxPath_def cmdPath_of_def inboxCmdPath_def inboxCmdTmp_def inboxDir_def jobsDir_def
        bridgeDir_def add_suffix_def)

lemma run_direct_calls:
  "\<exists>xs. trace (snd (run_direct e cmd w)) = trace w @ xs
        \<and> \<not> list_ex (fallback_call [cmdPath_of e, inboxCmdPath e, inboxCmdTmp e]) xs
        \<and> (fst (run_direct e cmd w) = Inr (direct_result (requestId_of e))
             \<longleftrightarrow> (\<exists>p out err. Osascript (DoScriptFile p) \<in> set xs
                     \<and> osascript e (DoScriptFile p) = Exited 0 out err))
        \<and> (\<forall>r. fst (run_direct e cmd w) = Inr r \<longrightarrow> r = direct_result (requestId_of e))
        \<and> fst (run_direct e cmd w) \<noteq> Inl NotRunning"
  by (cases cmd)
     (auto simp: run_direct_def write_jsx_def Let_def sys_write_def sys_osascript_def
        sys_unlink_def paths_distinct
      split: prod.splits option.splits proc_result.splits sum.splits)

lemma unlinkSync_trace:
  "snd (sys_unlink e p w) = \<lparr>disk = snd (unlinkSync (denied e) p (disk w)), trace = trace w @ [Unlink p]\<rparr>"
  by (simp add: sys_unlink_def split: prod.splits)

lemma sys_mkdir_trace:
  "snd (sys_mkdir e p w) = \<lparr>disk = snd (mkdirSync (denied e) p (disk w)), trace = trace w @ [Mkdir p]\<rparr>"
  by (simp add: sys_mkdir_def split: prod.splits)

text \<open>
  C10: the guard of the fast path names all three actions, so it holds for every command:
  whatever the command and the environment, \<open>runOnDemand\<close> makes none of the calls of
  the fallback (no write of the descriptor or of an inbox file, no rename, no run of the
  listener, no read of an artifact, no sleep). It returns
  \<open>{ok: true, operation: "direct", elapsedMs: 0}\<close> exactly when it has made the
  \<open>DoScriptFile\<close> call and that call exited with 0, and it throws the not-running error
  exactly when the probe does not report the host as running.
\<close>

theorem runOnDemand_direct_only:
  "\<not> list_ex (fallback_call [cmdPath_of e, inboxCmdPath e, inboxCmdTmp e])
       (new_calls w (snd (runOnDemand e cmd w)))
   \<and> (fst (runOnDemand e cmd w) = Inr (direct_result (requestId_of e))
        \<longleftrightarrow> (\<exists>p out err. Osascript (DoScriptFile p) \<in> set (new_calls w (snd (runOnDemand e cmd w)))
                \<and> osascript e (DoScriptFile p) = Exited 0 out err))
   \<and> (fst (runOnDemand e cmd w) = Inl NotRunning \<longleftrightarrow> \<not> fst (isAERunning e w))
   \<and> direct_result (requestId_of e)
        = \<lparr>ok = True,
           result = Some \<lparr>requestId = requestId_of e, operation = ''direct'', elapsedMs = 0\<rparr>,
           error = None\<rparr>"
proof -
  obtain b w0 where r: "isAERunning e w = (b, w0)" by (cases "isAERunning e w")
  have w0: "w0 = \<lparr>disk = disk w, trace = trace w @ [Osascript ExistsProcess]\<rparr>"
    using isAERunning_trace [of e w] r by simp
  obtain m1 w1 where m1: "sys_mkdir e (bridgeDir e) w0 = (m1, w1)" by (cases "sys_mkdir e (bridgeDir e) w0")
  obtain m2 w2 where m2: "sys_mkdir e (jobsDir e) w1 = (m2, w2)" by (cases "sys_mkdir e (jobsDir e) w1")
  have t1: "trace w1 = trace w @ [Osascript ExistsProcess, Mkdir (bridgeDir e)]"
    using sys_mkdir_trace [of e "bridgeDir e" w0] m1 w0 by auto
  have t2: "trace w2 = trace w @ [Osascript ExistsProcess, Mkdir (bridgeDir e), Mkdir (jobsDir e)]"
    using sys_mkdir_trace [of e "jobsDir e" w1] m2 t1 by auto
  obtain xs where xs: "trace (snd (run_direct e cmd w2)) = trace w2 @ xs"
    "\<not> list_ex (fallback_call [cmdPath_of e, inboxCmdPath e, inboxCmdTmp e]) xs"
    "fst (run_direct e cmd w2) = Inr (direct_result (requestId_of e))
             \<longleftrightarrow> (\<exists>p out err. Osascript (DoScriptFile p) \<in> set xs
                     \<and> osascript e (DoScriptFile p) = Exited 0 out err)"
    "\<forall>r. fst (run_direct e cmd w2) = Inr r \<longrightarrow> r = direct_result (requestId_of e)"
    "fst (run_direct e cmd w2) \<noteq> Inl NotRunning"
    using run_direct_calls [of e cmd w2] by blast
  obtain res w3 where rd: "run_direct e cmd w2 = (res, w3)" by (cases "run_direct e cmd w2")
  have t3: "trace w3 = trace w @ [Osascript ExistsProcess, Mkdir (bridgeDir e), Mkdir (jobsDir e)] @ xs"
    using xs(1) rd t2 by simp
  have "?thesis" if "\<not> b"
    using that r w0 by (simp add: runOnDemand_def new_calls_def direct_result_def)
  moreover have "?thesis" if "b" "m1 \<noteq> None"
    using that r w0 m1 t1 by (auto simp: runOnDemand_def new_calls_def direct_result_def)
  moreover have "?thesis" if "b" "m1 = None" "m2 \<noteq> None"
    using that r w0 m1 m2 t2 by (auto simp: runOnDemand_def new_calls_def direct_result_def)
  moreover have "?thesis" if "b" "m1 = None" "m2 = None"
  proof (cases res)
    case (Inl x)
    then show ?thesis
      using that r m1 m2 rd t3 xs(2,3,5) action_cases [of cmd]
      by (auto simp: runOnDemand_def new_calls_def unlinkSync_trace direct_result_def)
  next
    case (Inr y)
    then show ?thesis
      using that r m1 m2 rd t3 xs(2,3,4) action_cases [of cmd]
      by (auto simp: runOnDemand_def new_calls_def direct_result_def)
  qed
  ultimately show ?thesis by blast
qed

text \<open>
  Witness for C10: the host runs and every AppleScript call exits with 0; a script text
  submitted on an empty disk comes back with the direct result.
\<close>

theorem runOnDemand_direct_only_witness:
  "fst (runOnDemand
       \<lparr>HOME = Some [''Users'', ''u''], homedir = [''Users'', ''u''], denied = (\<lambda>p. False),
        now_ms = 17, random36 = ''k3'',
        osascript = (\<lambda>a. Exited 0 (js ''true'' @ [0x0A]) []),
        json_parse = (\<lambda>s. None), json_stringify = (\<lambda>c r p. []), host_fs = (\<lambda>t d. d),
         lag = (\<lambda>t. 0)\<rparr>
       (RunJsxText (js ''alert(1)'')) \<lparr>disk = [], trace = []\<rparr>)
     = Inr \<lparr>ok = True,
            result = Some \<lparr>requestId = ''17-k3'', operation = ''direct'', elapsedMs = 0\<rparr>,
            error = None\<rparr>"
proof -
  let ?e = "\<lparr>HOME = Some [''Users'', ''u''], homedir = [''Users'', ''u''], denied = (\<lambda>p. False),
        now_ms = 17, random36 = ''k3'',
        osascript = (\<lambda>a. Exited 0 (js ''true'' @ [0x0A]) []),
        json_parse = (\<lambda>s. None), json_stringify = (\<lambda>c r p. []), host_fs = (\<lambda>t d. d),
         lag = (\<lambda>t. 0)\<rparr>"
  let ?w = "\<lparr>disk = [], trace = []\<rparr>"
  let ?cmd = "RunJsxText (js ''alert(1)'')"
  let ?p = "escape_dq (render [''Users'', ''u'', ''Library'', ''Application Support'',
              ''raycast-ae-bridge'', ''jobs'', ''rb_17-k3_direct.jsx''])"
  have d: "dec 17 = ''17''" by code_simp
  have rid: "requestId_of ?e = ''17-k3''" by (simp add: requestId_of_def d)
  have run: "fst (isAERunning ?e ?w)"
    by (simp add: isAERunning_def sys_osascript_def js_trim_def js_def is_ws_def)
  have tr: "new_calls ?w (snd (runOnDemand ?e ?cmd ?w)) =
      [Osascript ExistsProcess,
       Mkdir [''Users'', ''u'', ''Library'', ''Application Support'', ''raycast-ae-bridge''],
       Mkdir [''Users'', ''u'', ''Library'', ''Application Support'', ''raycast-ae-bridge'', ''jobs''],
       Write [''Users'', ''u'', ''Library'', ''Application Support'', ''raycast-ae-bridge'', ''jobs'',
              ''rb_17-k3_direct.jsx''] (js ''alert(1)''),
       Osascript (DoScriptFile ?p),
       Unlink [''Users'', ''u'', ''Library'', ''Application Support'', ''raycast-ae-bridge'', ''jobs'',
              ''rb_17-k3_direct.jsx'']]"
    by (simp add: runOnDemand_def isAERunning_def sys_osascript_def js_trim_def is_ws_def
          sys_mkdir_def mkdirSync_def bridgeDir_def jobsDir_def homeDir_def run_direct_def
          write_jsx_def Let_def directJsxPath_def requestId_of_def d sys_write_def writeFileSync_def is_dir_def
          sys_unlink_def new_calls_def js_def unlinkSync_def)
  have "\<exists>p out err. Osascript (DoScriptFile p) \<in> set (new_calls ?w (snd (runOnDemand ?e ?cmd ?w)))
          \<and> osascript ?e (DoScriptFile p) = Exited 0 out err"
    unfolding tr
    by (rule exI [of _ ?p], rule exI [of _ "js ''true'' @ [0x0A]"], rule exI [of _ "[]"]) simp
  then have "fst (runOnDemand ?e ?cmd ?w) = Inr (direct_result (requestId_of ?e))"
    using runOnDemand_direct_only [of ?e ?w ?cmd] by blast
  then show ?thesis by (simp add: rid direct_result_def)
qed

subsection \<open>How descriptors are written\<close>

lemma read_artifact_trace:
  "\<exists>xs. trace (snd (read_artifact ap w)) = trace w @ xs \<and> filter places_file xs = []
        \<and> disk (snd (read_artifact ap w)) = disk w"
  by (auto simp: read_artifact_def sys_read_def split: prod.splits sum.splits)

lemma clean_up_trace:
  "\<exists>xs. trace (clean_up e cp ap w) = trace w @ xs \<and> filter places_file xs = []"
  by (auto simp: clean_up_def sys_unlink_def split: prod.splits option.splits)

lemma awaitArtifact_trace:
  "\<exists>xs. trace (snd (awaitArtifact e cp ap t w)) = trace w @ xs \<and> filter places_file xs = []"
proof (induction e cp ap t w rule: awaitArtifact.induct)
  case (1 e cmdPath artifactPath t w)
  note ih = "1.IH"
  note sim = awaitArtifact.simps [of e cmdPath artifactPath t w]
  let ?w0 = "\<lparr>disk = host_fs e t (disk w), trace = trace w\<rparr>"
  obtain r w1 where ra: "read_artifact artifactPath ?w0 = (r, w1)"
    by (cases "read_artifact artifactPath ?w0")
  obtain xs where xs: "trace w1 = trace w @ xs" "filter places_file xs = []"
    using read_artifact_trace [of artifactPath ?w0] ra by auto
  let ?w2 = "sys_sleep 150 w1"
  have w2: "trace ?w2 = trace w @ (xs @ [Sleep 150])" by (simp add: sys_sleep_def xs)
  have again: "\<exists>zs. trace (snd (awaitArtifact e cmdPath artifactPath (t + 150 + lag e t) ?w2))
                       = trace w @ zs \<and> filter places_file zs = []"
    if "\<exists>ys. trace (snd (awaitArtifact e cmdPath artifactPath (t + 150 + lag e t) ?w2))
                = trace ?w2 @ ys \<and> filter places_file ys = []"
  proof -
    from that obtain ys
      where ys: "trace (snd (awaitArtifact e cmdPath artifactPath (t + 150 + lag e t) ?w2))
                   = trace ?w2 @ ys" "filter places_file ys = []"
      by blast
    have "trace (snd (awaitArtifact e cmdPath artifactPath (t + 150 + lag e t) ?w2))
            = trace w @ (xs @ [Sleep 150] @ ys)"
      by (simp add: ys(1) w2)
    moreover have "filter places_file (xs @ [Sleep 150] @ ys) = []"
      by (simp add: xs(2) ys(2))
    ultimately show ?thesis by blast
  qed
  show ?case
  proof (cases "t < deadlineMs")
    case False
    then show ?thesis
      by (simp add: sim unlinkSync_trace)
  next
    case True
    show ?thesis
    proof (cases r)
      case None
      from again [OF ih(1) [OF True ra [symmetric] None]] True ra None show ?thesis
        by (simp add: sim)
    next
      case (Some tx)
      show ?thesis
      proof (cases "json_parse e tx")
        case None
        from again [OF ih(2) [OF True ra [symmetric] Some None]] True ra Some None
        show ?thesis by (simp add: sim)
      next
        case (Some r')
        obtain ys where ys: "trace (clean_up e cmdPath artifactPath w1) = trace w1 @ ys"
          "filter places_file ys = []"
          using clean_up_trace [of e cmdPath artifactPath w1] by blast
        have "trace (clean_up e cmdPath artifactPath w1) = trace w @ (xs @ ys)"
          by (simp add: ys(1) xs(1))
        moreover have "filter places_file (xs @ ys) = []" by (simp add: xs(2) ys(2))
        ultimately show ?thesis
          using True ra \<open>r = Some tx\<close> Some by (auto simp: sim)
      qed
    qed
  qed
qed

text \<open>
  C6, as stated, fails: \<open>queueCommand\<close> writes the queue file with one \<open>writeFileSync\<close>
  at its final path. The complete trace of a successful call is one \<open>mkdirSync\<close> and
  one write; no temporary file is written and nothing is renamed.
\<close>

theorem queueCommand_no_rename_counterexample:
  "queueCommand
     \<lparr>HOME = Some [''Users'', ''u''], homedir = [''Users'', ''u''], denied = (\<lambda>p. False),
      now_ms = 17, random36 = ''k3'', osascript = (\<lambda>a. SpawnError),
      json_parse = (\<lambda>s. None), json_stringify = (\<lambda>c r p. []), host_fs = (\<lambda>t d. d),
      lag = (\<lambda>t. 0)\<rparr>
     (js ''/tmp/a.wav'') ''cmd'' \<lparr>disk = [], trace = []\<rparr>
   = (True,
      \<lparr>disk =
         [([''Users''], Dir), ([''Users'', ''u''], Dir), ([''Users'', ''u'', ''Library''], Dir),
          ([''Users'', ''u'', ''Library'', ''Application Support''], Dir),
          ([''Users'', ''u'', ''Library'', ''Application Support'', ''raycast-ae-bridge''], Dir),
          ([''Users'', ''u'', ''Library'', ''Application Support'', ''raycast-ae-bridge'',
            ''queue''], Dir),
          ([''Users'', ''u'', ''Library'', ''Application Support'', ''raycast-ae-bridge'',
            ''queue'', ''17-k3.cmd''], File (js ''/tmp/a.wav'' @ [0x0A]))],
       trace =
         [Mkdir [''Users'', ''u'', ''Library'', ''Application Support'', ''raycast-ae-bridge'',
                 ''queue''],
          Write [''Users'', ''u'', ''Library'', ''Application Support'', ''raycast-ae-bridge'',
                 ''queue'', ''17-k3.cmd''] (js ''/tmp/a.wav'' @ [0x0A])]\<rparr>)"
proof -
  have d: "dec 17 = ''17''" by code_simp
  have t: "toWellFormed (payload (js ''/tmp/a.wav'')) = js ''/tmp/a.wav'' @ [0x0A]"
    by (simp add: payload_def js_def is_lead_def is_trail_def)
  show ?thesis
    by (simp add: queueCommand_def Let_def sys_mkdir_def sys_write_def mkdirSync_def
          getBridgeQueueDir_def home_or_tilde_def writeFileSync_def is_dir_def d t)
       (simp add: payload_def)
qed

text \<open>
  C6, amended: \<open>queueCommand\<close> creates the queue folder and then writes the content
  directly at the final path of the queue file; these are all its file system calls. In
  the fallback of \<open>runOnDemand\<close> only the inbox copy \<open>cmd.json\<close> is written to
  \<open>cmd.json.tmp\<close> and renamed. The job descriptor \<open>rb_<id>.json\<close> is written directly at
  its final path: when the folder creation, the write of the temporary inbox file and
  its rename have succeeded, the fourth call of the fallback is the \<open>writeFileSync\<close> of
  the descriptor at \<open>cmdPath\<close>, and when that call succeeds the descriptor is there with
  its text. In every run of the fallback the calls that put a file at a path are, as far
  as the run gets, the write of the temporary inbox file, its rename to \<open>cmd.json\<close> and
  the write of the descriptor; nothing is ever renamed to the descriptor's path.
\<close>

theorem descriptor_written_directly:
  "new_calls w (snd (queueCommand e c ext w))
     = (if fst (mkdirSync (denied e) (getBridgeQueueDir (HOME e)) (disk w)) = None
        then [Mkdir (getBridgeQueueDir (HOME e)),
              Write (getBridgeQueueDir (HOME e)
                       @ [dec (now_ms e) @ ''-'' @ random36 e @ ''.'' @ ext]) (payload c)]
        else [Mkdir (getBridgeQueueDir (HOME e))])
   \<and> (let txt = json_stringify e cmd (requestId_of e) (artifactPath_of e);
           w1 = snd (sys_mkdir e (inboxDir e) w);
           w2 = snd (sys_write e (inboxCmdTmp e) txt w1);
           w3 = snd (sys_rename e (inboxCmdTmp e) (inboxCmdPath e) w2)
       in (fst (sys_mkdir e (inboxDir e) w) = None
             \<and> fst (sys_write e (inboxCmdTmp e) txt w1) = None
             \<and> fst (sys_rename e (inboxCmdTmp e) (inboxCmdPath e) w2) = None
           \<longrightarrow> take 4 (new_calls w (snd (queued_invocation e cmd w)))
                 = [Mkdir (inboxDir e), Write (inboxCmdTmp e) txt,
                    Rename (inboxCmdTmp e) (inboxCmdPath e), Write (cmdPath_of e) txt]
               \<and> (fst (sys_write e (cmdPath_of e) txt w3) = None
                    \<longrightarrow> readFileSync (cmdPath_of e)
                          (disk (snd (sys_write e (cmdPath_of e) txt w3)))
                        = Inr (toWellFormed txt)))
          \<and> (\<exists>n. filter places_file (new_calls w (snd (queued_invocation e cmd w)))
                    = take n [Write (inboxCmdTmp e) txt,
                              Rename (inboxCmdTmp e) (inboxCmdPath e),
                              Write (cmdPath_of e) txt]))"
proof -
  have 1: "new_calls w (snd (queueCommand e c ext w))
     = (if fst (mkdirSync (denied e) (getBridgeQueueDir (HOME e)) (disk w)) = None
        then [Mkdir (getBridgeQueueDir (HOME e)),
              Write (getBridgeQueueDir (HOME e)
                       @ [dec (now_ms e) @ ''-'' @ random36 e @ ''.'' @ ext]) (payload c)]
        else [Mkdir (getBridgeQueueDir (HOME e))])"
    by (auto simp: queueCommand_def Let_def sys_mkdir_def sys_write_def new_calls_def
        split: prod.splits option.splits)
  let ?txt = "json_stringify e cmd (requestId_of e) (artifactPath_of e)"
  let ?five = "[Mkdir (inboxDir e), Write (inboxCmdTmp e) ?txt,
                Rename (inboxCmdTmp e) (inboxCmdPath e), Write (cmdPath_of e) ?txt,
                Osascript RunListener]"
  let ?three = "[Write (inboxCmdTmp e) ?txt, Rename (inboxCmdTmp e) (inboxCmdPath e),
                 Write (cmdPath_of e) ?txt]"
  let ?calls = "new_calls w (snd (queued_invocation e cmd w))"
  obtain m1 w1 where m1: "sys_mkdir e (inboxDir e) w = (m1, w1)"
    by (cases "sys_mkdir e (inboxDir e) w")
  obtain m2 w2 where m2: "sys_write e (inboxCmdTmp e) ?txt w1 = (m2, w2)"
    by (cases "sys_write e (inboxCmdTmp e) ?txt w1")
  obtain m3 w3 where m3: "sys_rename e (inboxCmdTmp e) (inboxCmdPath e) w2 = (m3, w3)"
    by (cases "sys_rename e (inboxCmdTmp e) (inboxCmdPath e) w2")
  obtain m4 w4 where m4: "sys_write e (cmdPath_of e) ?txt w3 = (m4, w4)"
    by (cases "sys_write e (cmdPath_of e) ?txt w3")
  obtain m5 w5 where m5: "sys_osascript e RunListener w4 = (m5, w5)"
    by (cases "sys_osascript e RunListener w4")
  have t1: "trace w1 = trace w @ take 1 ?five"
    using m1 by (auto simp: sys_mkdir_def split: prod.splits)
  have t2: "trace w2 = trace w @ take 2 ?five"
    using m2 t1 by (auto simp: sys_write_def split: prod.splits)
  have t3: "trace w3 = trace w @ take 3 ?five"
    using m3 t2 by (auto simp: sys_rename_def split: prod.splits)
  have t4: "trace w4 = trace w @ take 4 ?five"
    using m4 t3 by (auto simp: sys_write_def split: prod.splits)
  have t5: "trace w5 = trace w @ ?five"
    using m5 t4 by (auto simp: sys_osascript_def)
  obtain xs
    where xs: "trace (snd (awaitArtifact e (cmdPath_of e) (artifactPath_of e) 0 w5))
                 = trace w5 @ xs" "filter places_file xs = []"
    using awaitArtifact_trace [of e "cmdPath_of e" "artifactPath_of e" 0 w5] by blast
  have q: "queued_invocation e cmd w =
       (case m1 of Some x \<Rightarrow> (Inl (Sys x), w1) | None \<Rightarrow>
       (case m2 of Some x \<Rightarrow> (Inl (Sys x), w2) | None \<Rightarrow>
       (case m3 of Some x \<Rightarrow> (Inl (Sys x), w3) | None \<Rightarrow>
       (case m4 of Some x \<Rightarrow> (Inl (Sys x), w4) | None \<Rightarrow>
       (case m5 of SpawnError \<Rightarrow> (Inl Spawn, w5)
         | Exited code out err \<Rightarrow>
             if code = 0 then awaitArtifact e (cmdPath_of e) (artifactPath_of e) 0 w5
             else (Inl (AppleScriptStderr err), w5))))))"
    using m1 m2 m3 m4 m5
    by (simp add: queued_invocation_def Let_def split: option.splits proc_result.splits)
  have A: "take 4 ?calls = take 4 ?five" if "m1 = None" "m2 = None" "m3 = None"
    unfolding q using that t4 t5 xs(1)
    by (auto simp: new_calls_def split: option.splits proc_result.splits)
  have B: "readFileSync (cmdPath_of e) (disk w4) = Inr (toWellFormed ?txt)" if "m4 = None"
    using m4 that
    by (auto simp: sys_write_def readFileSync_def writeFileSync_def update_conv'
        split: prod.splits if_splits)
  have "filter places_file ?calls
          \<in> {take 0 ?three, take 1 ?three, take 2 ?three, take 3 ?three}"
    unfolding q using t1 t2 t3 t4 t5 xs
    by (auto simp: new_calls_def split: option.splits proc_result.splits)
  then have C: "\<exists>n. filter places_file ?calls = take n ?three" by blast
  have 2: "(m1 = None \<and> m2 = None \<and> m3 = None
             \<longrightarrow> take 4 ?calls = take 4 ?five
                 \<and> (m4 = None \<longrightarrow> readFileSync (cmdPath_of e) (disk w4) = Inr (toWellFormed ?txt)))
           \<and> (\<exists>n. filter places_file ?calls = take n ?three)"
    using A B C by blast
  show ?thesis
    by (rule conjI [OF 1]) (use 2 in \<open>simp add: Let_def m1 m2 m3 m4\<close>)
qed

text \<open>
  Witness for C6, amended: a script text queued on an empty disk, and a run of the
  fallback in which every file system call succeeds and the listener exits with 1.
\<close>

theorem descriptor_written_directly_witness:
  "new_calls \<lparr>disk = [], trace = []\<rparr>
     (snd (queueCommand
        \<lparr>HOME = Some [''u''], homedir = [''u''], denied = (\<lambda>p. False),
         now_ms = 17, random36 = ''k3'', osascript = (\<lambda>a. Exited 1 [] []),
         json_parse = (\<lambda>s. None), json_stringify = (\<lambda>c r p. js ''{}''),
         host_fs = (\<lambda>t d. d), lag = (\<lambda>t. 0)\<rparr>
        (js ''alert(1)'') ''jsx'' \<lparr>disk = [], trace = []\<rparr>))
   = [Mkdir [''u'', ''Library'', ''Application Support'', ''raycast-ae-bridge'', ''queue''],
      Write [''u'', ''Library'', ''Application Support'', ''raycast-ae-bridge'', ''queue'',
             ''17-k3.jsx''] (payload (js ''alert(1)''))]
   \<and> take 4 (new_calls
        \<lparr>disk = [([''u''], Dir), ([''u'', ''Library''], Dir),
                 ([''u'', ''Library'', ''Application Support''], Dir),
                 ([''u'', ''Library'', ''Application Support'', ''raycast-ae-bridge''], Dir),
                 ([''u'', ''Library'', ''Application Support'', ''raycast-ae-bridge'',
                   ''jobs''], Dir)],
         trace = []\<rparr>
        (snd (queued_invocation
          \<lparr>HOME = Some [''u''], homedir = [''u''], denied = (\<lambda>p. False),
           now_ms = 17, random36 = ''k3'', osascript = (\<lambda>a. Exited 1 [] []),
           json_parse = (\<lambda>s. None), json_stringify = (\<lambda>c r p. js ''{}''),
           host_fs = (\<lambda>t d. d), lag = (\<lambda>t. 0)\<rparr>
          (RunJsxText (js ''alert(1)''))
          \<lparr>disk = [([''u''], Dir), ([''u'', ''Library''], Dir),
                   ([''u'', ''Library'', ''Application Support''], Dir),
                   ([''u'', ''Library'', ''Application Support'', ''raycast-ae-bridge''], Dir),
                   ([''u'', ''Library'', ''Application Support'', ''raycast-ae-bridge'',
                     ''jobs''], Dir)],
           trace = []\<rparr>)))
     = [Mkdir [''u'', ''Library'', ''Application Support'', ''raycast-ae-bridge'', ''inbox''],
        Write [''u'', ''Library'', ''Application Support'', ''raycast-ae-bridge'', ''inbox'',
               ''cmd.json.tmp''] (js ''{}''),
        Rename [''u'', ''Library'', ''Application Support'', ''raycast-ae-bridge'', ''inbox'',
                ''cmd.json.tmp'']
               [''u'', ''Library'', ''Application Support'', ''raycast-ae-bridge'', ''inbox'',
                ''cmd.json''],
        Write [''u'', ''Library'', ''Application Support'', ''raycast-ae-bridge'', ''jobs'',
               ''rb_17-k3.json''] (js ''{}'')]
   \<and> readFileSync
         [''u'', ''Library'', ''Application Support'', ''raycast-ae-bridge'', ''jobs'',
          ''rb_17-k3.json'']
         (disk (snd (queued_invocation
           \<lparr>HOME = Some [''u''], homedir = [''u''], denied = (\<lambda>p. False),
            now_ms = 17, random36 = ''k3'', osascript = (\<lambda>a. Exited 1 [] []),
            json_parse = (\<lambda>s. None), json_stringify = (\<lambda>c r p. js ''{}''),
            host_fs = (\<lambda>t d. d), lag = (\<lambda>t. 0)\<rparr>
           (RunJsxText (js ''alert(1)''))
           \<lparr>disk = [([''u''], Dir), ([''u'', ''Library''], Dir),
                    ([''u'', ''Library'', ''Application Support''], Dir),
                    ([''u'', ''Library'', ''Application Support'', ''raycast-ae-bridge''], Dir),
                    ([''u'', ''Library'', ''Application Support'', ''raycast-ae-bridge'',
                      ''jobs''], Dir)],
            trace = []\<rparr>)))
       = Inr (js ''{}'')"
proof -
  let ?e = "\<lparr>HOME = Some [''u''], homedir = [''u''], denied = (\<lambda>p. False),
         now_ms = 17, random36 = ''k3'', osascript = (\<lambda>a. Exited 1 [] []),
         json_parse = (\<lambda>s. None), json_stringify = (\<lambda>c r p. js ''{}''),
         host_fs = (\<lambda>t d. d), lag = (\<lambda>t. 0)\<rparr>"
  let ?w = "\<lparr>disk = [], trace = []\<rparr>"
  let ?v = "\<lparr>disk = [([''u''], Dir), ([''u'', ''Library''], Dir),
                 ([''u'', ''Library'', ''Application Support''], Dir),
                 ([''u'', ''Library'', ''Application Support'', ''raycast-ae-bridge''], Dir),
                 ([''u'', ''Library'', ''Application Support'', ''raycast-ae-bridge'',
                   ''jobs''], Dir)],
         trace = []\<rparr>"
  let ?cmd = "RunJsxText (js ''alert(1)'')"
  let ?txt = "json_stringify ?e ?cmd (requestId_of ?e) (artifactPath_of ?e)"
  let ?w1 = "snd (sys_mkdir ?e (inboxDir ?e) ?v)"
  let ?w2 = "snd (sys_write ?e (inboxCmdTmp ?e) ?txt ?w1)"
  have d: "dec 17 = ''17''" by code_simp
  have t: "toWellFormed (js ''{}'') = js ''{}''"
    by (simp add: js_def is_lead_def is_trail_def)
  have m: "fst (mkdirSync (denied ?e) (getBridgeQueueDir (HOME ?e)) (disk ?w)) = None"
    by (simp add: mkdirSync_def getBridgeQueueDir_def home_or_tilde_def)
  have h1: "fst (sys_mkdir ?e (inboxDir ?e) ?v) = None"
    by (simp add: sys_mkdir_def mkdirSync_def inboxDir_def homeDir_def)
  have h2: "fst (sys_write ?e (inboxCmdTmp ?e) ?txt ?w1) = None"
    by (simp add: sys_mkdir_def mkdirSync_def inboxDir_def homeDir_def sys_write_def
          writeFileSync_def is_dir_def inboxCmdTmp_def inboxCmdPath_def add_suffix_def)
  have h3: "fst (sys_rename ?e (inboxCmdTmp ?e) (inboxCmdPath ?e) ?w2) = None"
    by (simp add: sys_mkdir_def mkdirSync_def inboxDir_def homeDir_def sys_write_def
          writeFileSync_def is_dir_def inboxCmdTmp_def inboxCmdPath_def add_suffix_def
          sys_rename_def renameSync_def t)
  let ?w3 = "snd (sys_rename ?e (inboxCmdTmp ?e) (inboxCmdPath ?e) ?w2)"
  have h4: "fst (sys_write ?e (cmdPath_of ?e) ?txt ?w3) = None"
    by (simp add: sys_mkdir_def mkdirSync_def inboxDir_def homeDir_def sys_write_def
          writeFileSync_def is_dir_def inboxCmdTmp_def inboxCmdPath_def add_suffix_def
          sys_rename_def renameSync_def t cmdPath_of_def jobsDir_def bridgeDir_def
          requestId_of_def d)
  have dq: "disk (snd (queued_invocation ?e ?cmd ?v))
              = disk (snd (sys_write ?e (cmdPath_of ?e) ?txt ?w3))"
    by (simp add: queued_invocation_def Let_def sys_osascript_def sys_mkdir_def mkdirSync_def
          inboxDir_def homeDir_def sys_write_def writeFileSync_def is_dir_def inboxCmdTmp_def
          inboxCmdPath_def add_suffix_def sys_rename_def renameSync_def t cmdPath_of_def
          jobsDir_def bridgeDir_def requestId_of_def d)
  note T = descriptor_written_directly [of ?w ?e "js ''alert(1)''" "''jsx''" ?cmd]
  note U = descriptor_written_directly [of ?v ?e "js ''alert(1)''" "''jsx''" ?cmd]
  have a: "new_calls ?w (snd (queueCommand ?e (js ''alert(1)'') ''jsx'' ?w))
     = [Mkdir (getBridgeQueueDir (HOME ?e)),
        Write (getBridgeQueueDir (HOME ?e)
                 @ [dec (now_ms ?e) @ ''-'' @ random36 ?e @ ''.'' @ ''jsx''])
          (payload (js ''alert(1)''))]"
    using T [THEN conjunct1] by (simp only: m if_True simp_thms)
  have b: "take 4 (new_calls ?v (snd (queued_invocation ?e ?cmd ?v)))
     = [Mkdir (inboxDir ?e), Write (inboxCmdTmp ?e) ?txt,
        Rename (inboxCmdTmp ?e) (inboxCmdPath ?e), Write (cmdPath_of ?e) ?txt]"
    using U [THEN conjunct2, unfolded Let_def, THEN conjunct1, THEN mp,
             OF conjI [OF h1 conjI [OF h2 h3]], THEN conjunct1] .
  have a': "new_calls ?w (snd (queueCommand ?e (js ''alert(1)'') ''jsx'' ?w))
     = [Mkdir [''u'', ''Library'', ''Application Support'', ''raycast-ae-bridge'', ''queue''],
        Write [''u'', ''Library'', ''Application Support'', ''raycast-ae-bridge'', ''queue'',
               ''17-k3.jsx''] (payload (js ''alert(1)''))]"
    unfolding a by (simp add: getBridgeQueueDir_def home_or_tilde_def d)
  have b': "take 4 (new_calls ?v (snd (queued_invocation ?e ?cmd ?v)))
     = [Mkdir [''u'', ''Library'', ''Application Support'', ''raycast-ae-bridge'', ''inbox''],
        Write [''u'', ''Library'', ''Application Support'', ''raycast-ae-bridge'', ''inbox'',
               ''cmd.json.tmp''] (js ''{}''),
        Rename [''u'', ''Library'', ''Application Support'', ''raycast-ae-bridge'', ''inbox'',
                ''cmd.json.tmp'']
               [''u'', ''Library'', ''Application Support'', ''raycast-ae-bridge'', ''inbox'',
                ''cmd.json''],
        Write [''u'', ''Library'', ''Application Support'', ''raycast-ae-bridge'', ''jobs'',
               ''rb_17-k3.json''] (js ''{}'')]"
    unfolding b
    by (simp add: inboxDir_def homeDir_def inboxCmdTmp_def inboxCmdPath_def add_suffix_def
          cmdPath_of_def jobsDir_def bridgeDir_def requestId_of_def d)
  have c: "readFileSync (cmdPath_of ?e) (disk (snd (sys_write ?e (cmdPath_of ?e) ?txt ?w3)))
             = Inr (toWellFormed ?txt)"
    using U [THEN conjunct2, unfolded Let_def, THEN conjunct1, THEN mp,
             OF conjI [OF h1 conjI [OF h2 h3]], THEN conjunct2, THEN mp, OF h4] .
  have c': "readFileSync
         [''u'', ''Library'', ''Application Support'', ''raycast-ae-bridge'', ''jobs'',
          ''rb_17-k3.json'']
         (disk (snd (queued_invocation ?e ?cmd ?v))) = Inr (js ''{}'')"
    unfolding dq using c
    by (simp add: cmdPath_of_def jobsDir_def bridgeDir_def homeDir_def requestId_of_def d t)
  show ?thesis by (intro conjI a' b' c')
qed


subsection \<open>Waiting for the artifact\<close>

lemma look_found:
  assumes "read_artifact ap \<lparr>disk = d, trace = tr\<rparr> = (r0, w1)"
  shows "disk w1 = d \<and> found e ap d = (case r0 of None \<Rightarrow> None | Some tx \<Rightarrow> json_parse e tx)"
  using assms
  by (auto simp: read_artifact_def sys_read_def found_def split: sum.splits prod.splits)

lemma sys_unlink_disk:
  "disk (snd (sys_unlink e p w)) = snd (unlinkSync (denied e) p (disk w))"
  "fst (sys_unlink e p w) = fst (unlinkSync (denied e) p (disk w))"
  by (simp_all add: sys_unlink_def split: prod.splits)

lemma clean_up_disk:
  "disk (clean_up e cp ap w) = disk (clean_up e cp ap \<lparr>disk = disk w, trace = []\<rparr>)"
  by (auto simp: clean_up_def sys_unlink_def split: prod.splits option.splits)

lemma await_step:
  assumes "t < deadlineMs"
  shows "awaitArtifact e cp ap t w =
    (case found e ap (host_fs e t (disk w)) of
       Some r \<Rightarrow>
         (Inr r, clean_up e cp ap
                   (snd (read_artifact ap \<lparr>disk = host_fs e t (disk w), trace = trace w\<rparr>)))
     | None \<Rightarrow>
         awaitArtifact e cp ap (t + 150 + lag e t)
           (sys_sleep 150
              (snd (read_artifact ap \<lparr>disk = host_fs e t (disk w), trace = trace w\<rparr>))))"
proof -
  obtain r0 w1
    where ra: "read_artifact ap \<lparr>disk = host_fs e t (disk w), trace = trace w\<rparr> = (r0, w1)"
    by (cases "read_artifact ap \<lparr>disk = host_fs e t (disk w), trace = trace w\<rparr>")
  from look_found [OF ra, of e] assms ra show ?thesis
    by (auto simp: awaitArtifact.simps [of e cp ap t w] split: option.splits)
qed

lemma read_artifact_disk: "disk (snd (read_artifact ap w)) = disk w"
  by (auto simp: read_artifact_def sys_read_def split: sum.splits prod.splits)

lemma look_at_ge: "t \<le> look_at e t k"
proof (induction k arbitrary: t)
  case 0
  show ?case by simp
next
  case (Suc k)
  have "t \<le> t + 150 + lag e t" by simp
  also have "\<dots> \<le> look_at e (t + 150 + lag e t) k" by (rule Suc.IH)
  finally show ?case by simp
qed

lemma look_at_Suc: "look_at e t (Suc k) = look_at e t k + 150 + lag e (look_at e t k)"
proof (induction k arbitrary: t)
  case 0
  show ?case by simp
next
  case (Suc k)
  have "look_at e t (Suc (Suc k)) = look_at e (t + 150 + lag e t) (Suc k)" by simp
  also have "\<dots> = look_at e (t + 150 + lag e t) k + 150
                     + lag e (look_at e (t + 150 + lag e t) k)"
    by (rule Suc.IH)
  finally show ?case by simp
qed

lemma look_at_lower: "t + 150 * k \<le> look_at e t k"
proof (induction k)
  case 0
  show ?case by simp
next
  case (Suc k)
  then show ?case unfolding look_at_Suc by simp
qed

lemma await_success:
  "look_at e t k < deadlineMs \<Longrightarrow> (\<forall>j<k. found e ap (polls_from e t (disk w) j) = None)
   \<Longrightarrow> found e ap (polls_from e t (disk w) k) = Some r
   \<Longrightarrow> fst (awaitArtifact e cp ap t w) = Inr r
       \<and> disk (snd (awaitArtifact e cp ap t w))
           = disk (clean_up e cp ap \<lparr>disk = polls_from e t (disk w) k, trace = []\<rparr>)"
proof (induction k arbitrary: t w)
  case 0
  then have t: "t < deadlineMs" by simp
  from 0 show ?case
    by (simp add: await_step [OF t])
       (subst clean_up_disk, simp add: read_artifact_disk)
next
  case (Suc k)
  let ?t' = "t + 150 + lag e t"
  have "t \<le> ?t'" by simp
  also have "?t' \<le> look_at e ?t' k" by (rule look_at_ge)
  also have "\<dots> < deadlineMs" using Suc.prems(1) by simp
  finally have t: "t < deadlineMs" .
  let ?w' = "sys_sleep 150
               (snd (read_artifact ap \<lparr>disk = host_fs e t (disk w), trace = trace w\<rparr>))"
  have d: "disk ?w' = host_fs e t (disk w)" by (simp add: sys_sleep_def read_artifact_disk)
  have none: "found e ap (host_fs e t (disk w)) = None" using Suc.prems(2) by force
  have "fst (awaitArtifact e cp ap ?t' ?w') = Inr r
       \<and> disk (snd (awaitArtifact e cp ap ?t' ?w'))
           = disk (clean_up e cp ap \<lparr>disk = polls_from e ?t' (disk ?w') k, trace = []\<rparr>)"
  proof (rule Suc.IH)
    show "look_at e ?t' k < deadlineMs" using Suc.prems(1) by simp
    show "\<forall>j<k. found e ap (polls_from e ?t' (disk ?w') j) = None"
      using Suc.prems(2) d by force
    show "found e ap (polls_from e ?t' (disk ?w') k) = Some r"
      using Suc.prems(3) d by simp
  qed
  then show ?case by (simp add: await_step [OF t] none d)
qed

lemma await_timeout:
  "deadlineMs \<le> look_at e t n
   \<Longrightarrow> (\<forall>j<n. look_at e t j < deadlineMs \<and> found e ap (polls_from e t (disk w) j) = None)
   \<Longrightarrow> fst (awaitArtifact e cp ap t w) = Inl TimedOut
       \<and> disk (snd (awaitArtifact e cp ap t w))
           = snd (unlinkSync (denied e) cp (polls_from e t (disk w) n))"
proof (induction n arbitrary: t w)
  case 0
  then have "\<not> t < deadlineMs" by simp
  then show ?case by (simp add: awaitArtifact.simps [of e cp ap t w] sys_unlink_disk)
next
  case (Suc n)
  let ?t' = "t + 150 + lag e t"
  have "look_at e t 0 < deadlineMs" using Suc.prems(2) by blast
  then have t: "t < deadlineMs" by simp
  let ?w' = "sys_sleep 150
               (snd (read_artifact ap \<lparr>disk = host_fs e t (disk w), trace = trace w\<rparr>))"
  have d: "disk ?w' = host_fs e t (disk w)" by (simp add: sys_sleep_def read_artifact_disk)
  have none: "found e ap (host_fs e t (disk w)) = None" using Suc.prems(2) by force
  have "fst (awaitArtifact e cp ap ?t' ?w') = Inl TimedOut
       \<and> disk (snd (awaitArtifact e cp ap ?t' ?w'))
           = snd (unlinkSync (denied e) cp (polls_from e ?t' (disk ?w') n))"
  proof (rule Suc.IH)
    show "deadlineMs \<le> look_at e ?t' n" using Suc.prems(1) by simp
    show "\<forall>j<n. look_at e ?t' j < deadlineMs
                 \<and> found e ap (polls_from e ?t' (disk ?w') j) = None"
    proof (intro allI impI)
      fix j assume "j < n"
      then have "Suc j < Suc n" by simp
      with Suc.prems(2)
      have "look_at e t (Suc j) < deadlineMs
              \<and> found e ap (polls_from e t (disk w) (Suc j)) = None"
        by blast
      then show "look_at e ?t' j < deadlineMs
                   \<and> found e ap (polls_from e ?t' (disk ?w') j) = None"
        by (simp add: d)
    qed
  qed
  then show ?case by (simp add: await_step [OF t] none d)
qed

lemma unlinkSync_file:
  "map_of d p = Some (File c) \<Longrightarrow> \<not> dn p \<Longrightarrow> unlinkSync dn p d = (None, AList.delete p d)"
  by (simp add: unlinkSync_def)

lemma unlinkSync_keeps_absent:
  "map_of (snd (unlinkSync dn p d)) q = None" if "map_of d q = None"
proof (cases "map_of d p")
  case None
  then show ?thesis using that by (simp add: unlinkSync_def)
next
  case (Some n)
  then show ?thesis using that by (cases n) (simp_all add: unlinkSync_def delete_conv')
qed

lemma unlinkSync_others:
  "map_of (snd (unlinkSync dn p d)) q = map_of d q" if "q \<noteq> p"
proof (cases "map_of d p")
  case None
  then show ?thesis by (simp add: unlinkSync_def)
next
  case (Some n)
  then show ?thesis using that by (cases n) (simp_all add: unlinkSync_def delete_conv')
qed

lemma clean_up_both:
  assumes "map_of d cp = Some (File c1)" "map_of d ap = Some (File c2)" "cp \<noteq> ap"
    "\<not> denied e cp" "\<not> denied e ap"
  shows "map_of (disk (clean_up e cp ap \<lparr>disk = d, trace = tr\<rparr>)) cp = None
       \<and> map_of (disk (clean_up e cp ap \<lparr>disk = d, trace = tr\<rparr>)) ap = None"
proof -
  let ?d1 = "AList.delete cp d"
  let ?d2 = "AList.delete ap ?d1"
  have u1: "unlinkSync (denied e) cp d = (None, ?d1)"
    using assms by (simp add: unlinkSync_file)
  have "map_of ?d1 ap = Some (File c2)" using assms by (simp add: delete_conv')
  then have u2: "unlinkSync (denied e) ap ?d1 = (None, ?d2)"
    using assms by (simp add: unlinkSync_file)
  have d: "disk (clean_up e cp ap \<lparr>disk = d, trace = tr\<rparr>)
             = snd (unlinkSync (denied e) (add_suffix ap ''.tmp'') ?d2)"
    by (simp add: clean_up_def sys_unlink_def u1 u2 split: prod.splits)
  have "map_of ?d2 cp = None" "map_of ?d2 ap = None" by (simp_all add: delete_conv')
  then show ?thesis unfolding d by (simp add: unlinkSync_keeps_absent)
qed

lemma clean_up_others:
  assumes "q \<noteq> cp" "q \<noteq> ap" "q \<noteq> add_suffix ap ''.tmp''"
  shows "map_of (disk (clean_up e cp ap \<lparr>disk = d, trace = tr\<rparr>)) q = map_of d q"
proof -
  obtain r1 d1 where u1: "unlinkSync (denied e) cp d = (r1, d1)"
    by (cases "unlinkSync (denied e) cp d")
  obtain r2 d2 where u2: "unlinkSync (denied e) ap d1 = (r2, d2)"
    by (cases "unlinkSync (denied e) ap d1")
  obtain r3 d3 where u3: "unlinkSync (denied e) (add_suffix ap ''.tmp'') d2 = (r3, d3)"
    by (cases "unlinkSync (denied e) (add_suffix ap ''.tmp'') d2")
  have 1: "map_of d1 q = map_of d q"
    using unlinkSync_others [OF assms(1), of "denied e" d] u1 by simp
  have 2: "map_of d2 q = map_of d1 q"
    using unlinkSync_others [OF assms(2), of "denied e" d1] u2 by simp
  have 3: "map_of d3 q = map_of d2 q"
    using unlinkSync_others [OF assms(3), of "denied e" d2] u3 by simp
  have "disk (clean_up e cp ap \<lparr>disk = d, trace = tr\<rparr>) \<in> {d1, d2, d3}"
    by (simp add: clean_up_def sys_unlink_def u1 u2 u3 split: option.splits)
  then show ?thesis using 1 2 3 by auto
qed

lemma unlink_removes:
  "map_of d cp \<noteq> Some Dir \<Longrightarrow> \<not> denied e cp
   \<Longrightarrow> map_of (snd (unlinkSync (denied e) cp d)) cp = None"
  by (auto simp: unlinkSync_def delete_conv' split: option.splits node.splits)

text \<open>
  C5, as stated, fails: an artifact that is there in time is not enough. The look that
  reads it also parses it, inside the same \<open>try\<close>, and a text that \<open>JSON.parse\<close>
  rejects is treated like a missing file: the awaiter sleeps and looks again. With the
  text \<open>{\<close> at the artifact path from the start, every look reads it, none returns, and
  the wait ends with the time-out error; the descriptor is removed and the artifact
  stays.
\<close>

theorem unparseable_artifact_counterexample:
  "readFileSync [''jobs'', ''rb_1.done.json'']
     [([''jobs''], Dir), ([''jobs'', ''rb_1.json''], File (js ''{}'')),
      ([''jobs'', ''rb_1.done.json''], File (js ''{''))]
     = Inr (js ''{'')
   \<and> fst (awaitArtifact
       \<lparr>HOME = None, homedir = [], denied = (\<lambda>p. False), now_ms = 0, random36 = ''a'',
        osascript = (\<lambda>a. SpawnError),
        json_parse = (\<lambda>s. if s = js ''{}''
                            then Some \<lparr>ok = True, result = None, error = None\<rparr> else None),
        json_stringify = (\<lambda>c r p. []), host_fs = (\<lambda>t d. d), lag = (\<lambda>t. 0)\<rparr>
       [''jobs'', ''rb_1.json''] [''jobs'', ''rb_1.done.json''] 0
       \<lparr>disk = [([''jobs''], Dir), ([''jobs'', ''rb_1.json''], File (js ''{}'')),
                ([''jobs'', ''rb_1.done.json''], File (js ''{''))],
        trace = []\<rparr>)
     = Inl TimedOut
   \<and> disk (snd (awaitArtifact
       \<lparr>HOME = None, homedir = [], denied = (\<lambda>p. False), now_ms = 0, random36 = ''a'',
        osascript = (\<lambda>a. SpawnError),
        json_parse = (\<lambda>s. if s = js ''{}''
                            then Some \<lparr>ok = True, result = None, error = None\<rparr> else None),
        json_stringify = (\<lambda>c r p. []), host_fs = (\<lambda>t d. d), lag = (\<lambda>t. 0)\<rparr>
       [''jobs'', ''rb_1.json''] [''jobs'', ''rb_1.done.json''] 0
       \<lparr>disk = [([''jobs''], Dir), ([''jobs'', ''rb_1.json''], File (js ''{}'')),
                ([''jobs'', ''rb_1.done.json''], File (js ''{''))],
        trace = []\<rparr>))
     = [([''jobs''], Dir), ([''jobs'', ''rb_1.done.json''], File (js ''{''))]"
proof -
  let ?cp = "[''jobs'', ''rb_1.json'']"
  let ?ap = "[''jobs'', ''rb_1.done.json'']"
  let ?e = "\<lparr>HOME = None, homedir = [], denied = (\<lambda>p. False), now_ms = 0, random36 = ''a'',
        osascript = (\<lambda>a. SpawnError),
        json_parse = (\<lambda>s. if s = js ''{}''
                            then Some \<lparr>ok = True, result = None, error = None\<rparr> else None),
        json_stringify = (\<lambda>c r p. []), host_fs = (\<lambda>t d. d), lag = (\<lambda>t. 0)\<rparr>"
  let ?d0 = "[(([''jobs'']::path), Dir), (?cp, File (js ''{}'')), (?ap, File (js ''{''))]"
  let ?w = "\<lparr>disk = ?d0, trace = []\<rparr>"
  have r: "readFileSync ?ap ?d0 = Inr (js ''{'')" by (simp add: readFileSync_def)
  have la: "look_at ?e t j = t + 150 * j" for t j
    by (induction j arbitrary: t) simp_all
  have po: "polls_from ?e t d j = d" for t d j
    by (induction j arbitrary: t d) simp_all
  have nf: "found ?e ?ap ?d0 = None"
    by (simp add: found_def r) (simp add: js_def)
  have h: "deadlineMs \<le> look_at ?e 0 34
      \<and> (\<forall>j<34. look_at ?e 0 j < deadlineMs
                  \<and> found ?e ?ap (polls_from ?e 0 (disk ?w) j) = None)"
    by (simp add: la po nf deadlineMs_def)
  have t1: "fst (awaitArtifact ?e ?cp ?ap 0 ?w) = Inl TimedOut"
    and t2: "disk (snd (awaitArtifact ?e ?cp ?ap 0 ?w))
               = snd (unlinkSync (denied ?e) ?cp (polls_from ?e 0 (disk ?w) 34))"
    using await_timeout [of ?e 0 34 ?ap ?w ?cp] h by simp_all
  have t2': "disk (snd (awaitArtifact ?e ?cp ?ap 0 ?w)) = [([''jobs''], Dir), (?ap, File (js ''{''))]"
    unfolding t2 by (simp add: po unlinkSync_def)
  show ?thesis by (intro conjI r t1 t2')
qed

text \<open>
  C5, amended: the awaiter looks for the artifact, at its final path first and then
  under its \<open>.tmp\<close> name, each time the test of the loop finds that less than 5000 ms
  have passed. Between two looks lie the 150 ms of the \<open>sleep\<close> and the lag, so there are
  at most 34 looks. The first look that finds an artifact it can read and parse ends the
  wait with the parsed result, after the clean-up. The clean-up leaves every file but the
  descriptor, the artifact and its \<open>.tmp\<close> variant as it is; when the descriptor and the
  artifact at its final path are files the process may remove, it removes both. When no
  look finds an artifact it can read and parse (as for an artifact written only at
  6200 ms) the awaiter calls \<open>unlinkSync\<close> on the descriptor, which removes it unless it
  is a directory or the process may not remove it, changes nothing else, and throws the
  time-out error; it never looks again, so an artifact that appears after the last look
  stays where it is.
\<close>

theorem awaiter_polls_until_deadline:
  "(look_at e t k < deadlineMs \<and> (\<forall>j<k. found e ap (polls_from e t (disk w) j) = None)
      \<and> found e ap (polls_from e t (disk w) k) = Some r
    \<longrightarrow> fst (awaitArtifact e cp ap t w) = Inr r
        \<and> disk (snd (awaitArtifact e cp ap t w))
            = disk (clean_up e cp ap \<lparr>disk = polls_from e t (disk w) k, trace = []\<rparr>))
   \<and> (deadlineMs \<le> look_at e t n
      \<and> (\<forall>j<n. look_at e t j < deadlineMs
                 \<and> found e ap (polls_from e t (disk w) j) = None)
    \<longrightarrow> fst (awaitArtifact e cp ap t w) = Inl TimedOut
        \<and> disk (snd (awaitArtifact e cp ap t w))
            = snd (unlinkSync (denied e) cp (polls_from e t (disk w) n))
        \<and> error_message TimedOut = Some (js ''Timed out waiting for After Effects''))
   \<and> look_at e t (Suc k) = look_at e t k + 150 + lag e (look_at e t k)
   \<and> deadlineMs \<le> look_at e t 34
   \<and> deadlineMs = 5000
   \<and> (map_of d cp = Some (File c1) \<and> map_of d ap = Some (File c2) \<and> cp \<noteq> ap
        \<and> \<not> denied e cp \<and> \<not> denied e ap
    \<longrightarrow> map_of (disk (clean_up e cp ap \<lparr>disk = d, trace = tr\<rparr>)) cp = None
        \<and> map_of (disk (clean_up e cp ap \<lparr>disk = d, trace = tr\<rparr>)) ap = None)
   \<and> (q \<noteq> cp \<and> q \<noteq> ap \<and> q \<noteq> add_suffix ap ''.tmp''
    \<longrightarrow> map_of (disk (clean_up e cp ap \<lparr>disk = d, trace = tr\<rparr>)) q = map_of d q)
   \<and> (map_of d cp \<noteq> Some Dir \<and> \<not> denied e cp
    \<longrightarrow> map_of (snd (unlinkSync (denied e) cp d)) cp = None)
   \<and> (q \<noteq> cp \<longrightarrow> map_of (snd (unlinkSync (denied e) cp d)) q = map_of d q)"
proof (intro conjI impI)
  assume a: "look_at e t k < deadlineMs
      \<and> (\<forall>j<k. found e ap (polls_from e t (disk w) j) = None)
      \<and> found e ap (polls_from e t (disk w) k) = Some r"
  from await_success [of e t k ap w r cp] a
  show "fst (awaitArtifact e cp ap t w) = Inr r"
    and "disk (snd (awaitArtifact e cp ap t w))
            = disk (clean_up e cp ap \<lparr>disk = polls_from e t (disk w) k, trace = []\<rparr>)"
    by simp_all
next
  assume a: "deadlineMs \<le> look_at e t n
      \<and> (\<forall>j<n. look_at e t j < deadlineMs
                 \<and> found e ap (polls_from e t (disk w) j) = None)"
  from await_timeout [of e t n ap w cp] a
  show "fst (awaitArtifact e cp ap t w) = Inl TimedOut"
    and "disk (snd (awaitArtifact e cp ap t w))
            = snd (unlinkSync (denied e) cp (polls_from e t (disk w) n))"
    by simp_all
next
  show "error_message TimedOut = Some (js ''Timed out waiting for After Effects'')" by simp
next
  show "look_at e t (Suc k) = look_at e t k + 150 + lag e (look_at e t k)"
    by (rule look_at_Suc)
next
  show "deadlineMs \<le> look_at e t 34"
    using look_at_lower [of t 34 e] by (simp add: deadlineMs_def)
next
  show "deadlineMs = 5000" by (simp add: deadlineMs_def)
next
  assume "map_of d cp = Some (File c1) \<and> map_of d ap = Some (File c2) \<and> cp \<noteq> ap
        \<and> \<not> denied e cp \<and> \<not> denied e ap"
  then show "map_of (disk (clean_up e cp ap \<lparr>disk = d, trace = tr\<rparr>)) cp = None"
    and "map_of (disk (clean_up e cp ap \<lparr>disk = d, trace = tr\<rparr>)) ap = None"
    using clean_up_both [of d cp c1 ap c2 e tr] by simp_all
next
  assume "q \<noteq> cp \<and> q \<noteq> ap \<and> q \<noteq> add_suffix ap ''.tmp''"
  then show "map_of (disk (clean_up e cp ap \<lparr>disk = d, trace = tr\<rparr>)) q = map_of d q"
    using clean_up_others [of q cp ap e d tr] by simp
next
  assume "map_of d cp \<noteq> Some Dir \<and> \<not> denied e cp"
  then show "map_of (snd (unlinkSync (denied e) cp d)) cp = None"
    using unlink_removes [of d cp e] by simp
next
  assume "q \<noteq> cp"
  then show "map_of (snd (unlinkSync (denied e) cp d)) q = map_of d q"
    by (rule unlinkSync_others)
qed

text \<open>
  Witness for C5, amended, with a lag of 50 ms, so that the looks come at 0, 200, 400, ...
  milliseconds: with an artifact written at 6200 ms the wait ends with the time-out error
  and the descriptor is gone; with an artifact written at 400 ms the wait ends with the
  parsed result and both files are gone.
\<close>

theorem awaiter_polls_until_deadline_witness:
  "fst (awaitArtifact
     \<lparr>HOME = None, homedir = [], denied = (\<lambda>p. False), now_ms = 0, random36 = ''a'',
      osascript = (\<lambda>a. SpawnError),
      json_parse = (\<lambda>s. Some \<lparr>ok = True, result = None, error = None\<rparr>),
      json_stringify = (\<lambda>c r p. []),
      host_fs = (\<lambda>t d. if 6200 \<le> t
                        then AList.update [''jobs'', ''rb_1.done.json''] (File (js ''{}'')) d
                        else d),
      lag = (\<lambda>t. 50)\<rparr>
     [''jobs'', ''rb_1.json''] [''jobs'', ''rb_1.done.json''] 0
     \<lparr>disk = [([''jobs''], Dir), ([''jobs'', ''rb_1.json''], File (js ''{}''))], trace = []\<rparr>)
     = Inl TimedOut
   \<and> disk (snd (awaitArtifact
     \<lparr>HOME = None, homedir = [], denied = (\<lambda>p. False), now_ms = 0, random36 = ''a'',
      osascript = (\<lambda>a. SpawnError),
      json_parse = (\<lambda>s. Some \<lparr>ok = True, result = None, error = None\<rparr>),
      json_stringify = (\<lambda>c r p. []),
      host_fs = (\<lambda>t d. if 6200 \<le> t
                        then AList.update [''jobs'', ''rb_1.done.json''] (File (js ''{}'')) d
                        else d),
      lag = (\<lambda>t. 50)\<rparr>
     [''jobs'', ''rb_1.json''] [''jobs'', ''rb_1.done.json''] 0
     \<lparr>disk = [([''jobs''], Dir), ([''jobs'', ''rb_1.json''], File (js ''{}''))], trace = []\<rparr>))
     = [([''jobs''], Dir)]
   \<and> fst (awaitArtifact
     \<lparr>HOME = None, homedir = [], denied = (\<lambda>p. False), now_ms = 0, random36 = ''a'',
      osascript = (\<lambda>a. SpawnError),
      json_parse = (\<lambda>s. Some \<lparr>ok = True, result = None, error = None\<rparr>),
      json_stringify = (\<lambda>c r p. []),
      host_fs = (\<lambda>t d. if t = 400
                        then AList.update [''jobs'', ''rb_1.done.json''] (File (js ''{}'')) d
                        else d),
      lag = (\<lambda>t. 50)\<rparr>
     [''jobs'', ''rb_1.json''] [''jobs'', ''rb_1.done.json''] 0
     \<lparr>disk = [([''jobs''], Dir), ([''jobs'', ''rb_1.json''], File (js ''{}''))], trace = []\<rparr>)
     = Inr \<lparr>ok = True, result = None, error = None\<rparr>
   \<and> disk (snd (awaitArtifact
     \<lparr>HOME = None, homedir = [], denied = (\<lambda>p. False), now_ms = 0, random36 = ''a'',
      osascript = (\<lambda>a. SpawnError),
      json_parse = (\<lambda>s. Some \<lparr>ok = True, result = None, error = None\<rparr>),
      json_stringify = (\<lambda>c r p. []),
      host_fs = (\<lambda>t d. if t = 400
                        then AList.update [''jobs'', ''rb_1.done.json''] (File (js ''{}'')) d
                        else d),
      lag = (\<lambda>t. 50)\<rparr>
     [''jobs'', ''rb_1.json''] [''jobs'', ''rb_1.done.json''] 0
     \<lparr>disk = [([''jobs''], Dir), ([''jobs'', ''rb_1.json''], File (js ''{}''))], trace = []\<rparr>))
     = [([''jobs''], Dir)]"
proof -
  let ?cp = "[''jobs'', ''rb_1.json'']"
  let ?ap = "[''jobs'', ''rb_1.done.json'']"
  let ?r = "\<lparr>ok = True, result = None, error = None\<rparr>"
  let ?late = "\<lparr>HOME = None, homedir = [], denied = (\<lambda>p. False), now_ms = 0, random36 = ''a'',
      osascript = (\<lambda>a. SpawnError), json_parse = (\<lambda>s. Some ?r),
      json_stringify = (\<lambda>c r p. []),
      host_fs = (\<lambda>t d. if 6200 \<le> t then AList.update ?ap (File (js ''{}'')) d else d),
      lag = (\<lambda>t. 50)\<rparr>"
  let ?soon = "\<lparr>HOME = None, homedir = [], denied = (\<lambda>p. False), now_ms = 0, random36 = ''a'',
      osascript = (\<lambda>a. SpawnError), json_parse = (\<lambda>s. Some ?r),
      json_stringify = (\<lambda>c r p. []),
      host_fs = (\<lambda>t d. if t = 400 then AList.update ?ap (File (js ''{}'')) d else d),
      lag = (\<lambda>t. 50)\<rparr>"
  let ?d0 = "[(([''jobs'']::path), Dir), (?cp, File (js ''{}''))]"
  let ?w = "\<lparr>disk = ?d0, trace = []\<rparr>"
  have la: "look_at ?late t j = t + 200 * j" for t j
    by (induction j arbitrary: t) simp_all
  have so: "look_at ?soon t j = t + 200 * j" for t j
    by (induction j arbitrary: t) simp_all
  have late: "polls_from ?late t d j = d" if "t + 200 * j < 6200" for t d j
    using that by (induction j arbitrary: t d) simp_all
  have nf: "found e ?ap ?d0 = None" for e
    by (simp add: found_def readFileSync_def add_suffix_def)
  have h1: "deadlineMs \<le> look_at ?late 0 25
      \<and> (\<forall>j<25. look_at ?late 0 j < deadlineMs
                  \<and> found ?late ?ap (polls_from ?late 0 (disk ?w) j) = None)"
    by (simp add: la late nf deadlineMs_def)
  have soon: "polls_from ?soon t d j = d" if "t + 200 * j < 400" for t d j
    using that by (induction j arbitrary: t d) simp_all
  have p2: "polls_from ?soon 0 ?d0 2 = ?d0 @ [(?ap, File (js ''{}''))]"
    by (simp add: numeral_2_eq_2)
  have h2: "look_at ?soon 0 2 < deadlineMs
              \<and> (\<forall>j<2. found ?soon ?ap (polls_from ?soon 0 (disk ?w) j) = None)
              \<and> found ?soon ?ap (polls_from ?soon 0 (disk ?w) 2) = Some ?r"
    by (simp add: p2 soon nf so deadlineMs_def) (simp add: found_def readFileSync_def)
  note T = awaiter_polls_until_deadline [of _ 0 _ ?ap _ _ ?cp]
  have t1: "fst (awaitArtifact ?late ?cp ?ap 0 ?w) = Inl TimedOut"
    and t2: "disk (snd (awaitArtifact ?late ?cp ?ap 0 ?w))
               = snd (unlinkSync (denied ?late) ?cp (polls_from ?late 0 (disk ?w) 25))"
    using T [of ?late 0 ?w _ 25, THEN conjunct2, THEN conjunct1, THEN mp, OF h1] by simp_all
  have s1: "fst (awaitArtifact ?soon ?cp ?ap 0 ?w) = Inr ?r"
    and s2: "disk (snd (awaitArtifact ?soon ?cp ?ap 0 ?w))
               = disk (clean_up ?soon ?cp ?ap
                         \<lparr>disk = polls_from ?soon 0 (disk ?w) 2, trace = []\<rparr>)"
    using T [of ?soon 2 ?w ?r, THEN conjunct1, THEN mp, OF h2] by simp_all
  have t2': "disk (snd (awaitArtifact ?late ?cp ?ap 0 ?w)) = [([''jobs''], Dir)]"
    unfolding t2 by (simp add: late unlinkSync_def)
  have s2': "disk (snd (awaitArtifact ?soon ?cp ?ap 0 ?w)) = [([''jobs''], Dir)]"
    unfolding s2 by (simp add: p2 clean_up_def sys_unlink_def unlinkSync_def add_suffix_def)
  show ?thesis by (intro conjI t1 t2' s1 s2')
qed


section \<open>Properties of the installer\<close>

lemma kept_refl: "kept dn code d d"
  by (simp add: kept_def)

lemma kept_trans: "kept dn code d1 d2 \<Longrightarrow> kept dn code d2 d3 \<Longrightarrow> kept dn code d1 d3"
  unfolding kept_def by (metis option.distinct(1) option.inject)

lemma added_refl: "added Q d d"
  by (simp add: added_def)

lemma added_trans:
  assumes "added Q d1 d2" "added Q d2 d3"
  shows "added Q d1 d3"
proof -
  obtain n1 where n1: "map fst d2 = map fst d1 @ n1" "\<forall>k \<in> set n1. Q k" "distinct n1"
    "set n1 \<inter> set (map fst d1) = {}" using assms(1) unfolding added_def by blast
  obtain n2 where n2: "map fst d3 = map fst d2 @ n2" "\<forall>k \<in> set n2. Q k" "distinct n2"
    "set n2 \<inter> set (map fst d2) = {}" using assms(2) unfolding added_def by blast
  have "map fst d3 = map fst d1 @ (n1 @ n2)" using n1 n2 by simp
  moreover have "\<forall>k \<in> set (n1 @ n2). Q k" using n1 n2 by auto
  moreover have "distinct (n1 @ n2)" using n1 n2 by auto
  moreover have "set (n1 @ n2) \<inter> set (map fst d1) = {}" using n1 n2 by auto
  ultimately show ?thesis unfolding added_def by blast
qed

lemma added_mono: "added Q d d' \<Longrightarrow> (\<And>k. Q k \<Longrightarrow> Q' k) \<Longrightarrow> added Q' d d'"
  unfolding added_def by blast

lemma map_of_append_absent:
  "map_of d q = None \<Longrightarrow> map_of (d @ [(q, v)]) k = (if k = q then Some v else map_of d k)"
  by (cases "map_of d k") (auto simp: map_of_append map_add_def split: option.splits)

lemma mkdirs_kept: "kept dn code d (snd (mkdirs dn qs d))"
proof (induction qs arbitrary: d)
  case Nil
  then show ?case by (simp add: kept_refl)
next
  case (Cons q qs)
  show ?case
  proof (cases "map_of d q")
    case None
    show ?thesis
    proof (cases "dn q")
      case True
      with None show ?thesis by (simp add: kept_refl)
    next
      case False
      have "kept dn code d (d @ [(q, Dir)])"
        using None False by (auto simp: kept_def map_of_append_absent)
      from kept_trans [OF this Cons.IH [of "d @ [(q, Dir)]"]] None False
      show ?thesis by simp
    qed
  next
    case (Some n)
    then show ?thesis using Cons.IH [of d] by (cases n) (simp_all add: kept_refl)
  qed
qed

lemma mkdirs_added: "added (\<lambda>k. k \<in> set qs) d (snd (mkdirs dn qs d))"
proof (induction qs arbitrary: d)
  case Nil
  then show ?case by (simp add: added_refl)
next
  case (Cons q qs)
  have ih: "added (\<lambda>k. k \<in> set (q # qs)) d' (snd (mkdirs dn qs d'))" for d'
    using Cons.IH [of d'] by (rule added_mono) simp
  show ?case
  proof (cases "map_of d q")
    case None
    show ?thesis
    proof (cases "dn q")
      case True
      with None show ?thesis by (simp add: added_refl)
    next
      case False
      have "q \<notin> set (map fst d)" using None by (simp add: map_of_eq_None_iff)
      then have "added (\<lambda>k. k \<in> set (q # qs)) d (d @ [(q, Dir)])"
        unfolding added_def by (intro exI [of _ "[q]"]) simp
      from added_trans [OF this ih [of "d @ [(q, Dir)]"]] None False
      show ?thesis by simp
    qed
  next
    case (Some n)
    then show ?thesis using ih [of d] by (cases n) (simp_all add: added_refl)
  qed
qed

lemma mkdirs_Dir:
  "mkdirs dn qs d = (None, d') \<Longrightarrow> q \<in> set qs \<Longrightarrow> map_of d' q = Some Dir"
proof (induction qs arbitrary: d)
  case Nil
  then show ?case by simp
next
  case (Cons a qs)
  have k: "kept dn code d2 (snd (mkdirs dn qs d2))" for d2 code by (rule mkdirs_kept)
  show ?case
  proof (cases "map_of d a")
    case None
    with Cons.prems have nd: "\<not> dn a" and m: "mkdirs dn qs (d @ [(a, Dir)]) = (None, d')"
      by (auto split: if_splits)
    show ?thesis
    proof (cases "q = a")
      case True
      have "map_of (d @ [(a, Dir)]) a = Some Dir"
        using map_of_append_absent [OF None, of Dir a] by simp
      then show ?thesis using k [of "[]" "d @ [(a, Dir)]"] m True by (simp add: kept_def)
    next
      case False
      then show ?thesis using Cons.IH [OF m] Cons.prems(2) by simp
    qed
  next
    case (Some n)
    with Cons.prems have n: "n = Dir" and m: "mkdirs dn qs d = (None, d')"
      by (cases n; simp)+
    show ?thesis
    proof (cases "q = a")
      case True
      then show ?thesis using k [of "[]" d] m Some n by (simp add: kept_def)
    next
      case False
      then show ?thesis using Cons.IH [OF m] Cons.prems(2) by simp
    qed
  qed
qed

lemma mkdirs_settled:
  "mkdirs dn qs d = (r, d1) \<Longrightarrow> kept dn code d1 d2 \<Longrightarrow> mkdirs dn qs d2 = (r, d2)"
proof (induction qs arbitrary: d)
  case Nil
  then show ?case by simp
next
  case (Cons q qs)
  have k: "kept dn code d (snd (mkdirs dn (q # qs) d))" by (rule mkdirs_kept)
  then have k1: "kept dn code d d1" using Cons.prems(1) by simp
  have k2: "kept dn code d d2" by (rule kept_trans [OF k1 Cons.prems(2)])
  show ?case
  proof (cases "map_of d q")
    case None
    show ?thesis
    proof (cases "dn q")
      case True
      with None Cons.prems(1) have "r = Some EACCES" by auto
      moreover have "map_of d2 q = None" using k2 None True by (simp add: kept_def)
      ultimately show ?thesis using True by simp
    next
      case False
      with None Cons.prems(1) have m: "mkdirs dn qs (d @ [(q, Dir)]) = (r, d1)" by simp
      have "map_of (d @ [(q, Dir)]) q = Some Dir"
        using map_of_append_absent [OF None, of Dir q] by simp
      then have "map_of d1 q = Some Dir"
        using mkdirs_kept [of dn code "d @ [(q, Dir)]" qs] m by (simp add: kept_def)
      then have "map_of d2 q = Some Dir" using Cons.prems(2) by (simp add: kept_def)
      then show ?thesis using Cons.IH [OF m Cons.prems(2)] by simp
    qed
  next
    case (Some n)
    show ?thesis
    proof (cases n)
      case (File c)
      with Some Cons.prems(1) have "r = Some ENOTDIR" by auto
      moreover obtain c' where "map_of d2 q = Some (File c')"
        using k2 Some File unfolding kept_def by blast
      ultimately show ?thesis by simp
    next
      case Dir
      with Some Cons.prems(1) have m: "mkdirs dn qs d = (r, d1)" by simp
      have "map_of d2 q = Some Dir" using k2 Some Dir by (simp add: kept_def)
      then show ?thesis using Cons.IH [OF m Cons.prems(2)] by simp
    qed
  qed
qed

lemma writeFileSync_kept: "kept dn code d (snd (writeFileSync dn p code d))"
  by (auto simp: writeFileSync_def kept_def update_conv')

lemma writeFileSync_added: "added (\<lambda>k. k = p) d (snd (writeFileSync dn p c d))"
proof (cases "fst (writeFileSync dn p c d)")
  case None
  then have d': "snd (writeFileSync dn p c d) = AList.update p (File (toWellFormed c)) d"
    by (auto simp: writeFileSync_def split: if_splits)
  show ?thesis
  proof (cases "p \<in> set (map fst d)")
    case True
    then have "map fst (AList.update p (File (toWellFormed c)) d) = map fst d @ []"
      by (simp add: update_keys)
    then show ?thesis unfolding d' added_def by (intro exI [of _ "[]"]) simp
  next
    case False
    then have "map fst (AList.update p (File (toWellFormed c)) d) = map fst d @ [p]"
      by (simp add: update_keys)
    then show ?thesis unfolding d' added_def using False by (intro exI [of _ "[p]"]) simp
  qed
next
  case (Some e)
  then have "snd (writeFileSync dn p c d) = d"
    by (auto simp: writeFileSync_def split: if_splits)
  then show ?thesis by (simp add: added_refl)
qed

lemma install_one_kept: "kept dn code d (snd (install_one dn code p d))"
proof -
  obtain r d1 where m: "mkdirSync dn p d = (r, d1)" by (cases "mkdirSync dn p d")
  have k1: "kept dn code d d1" using mkdirs_kept [of dn code d "prefixes_of p"] m
    by (simp add: mkdirSync_def)
  show ?thesis
  proof (cases r)
    case None
    obtain r2 d2 where w: "writeFileSync dn (p @ [''RaycastBridge.jsx'']) code d1 = (r2, d2)"
      by (cases "writeFileSync dn (p @ [''RaycastBridge.jsx'']) code d1")
    have "kept dn code d1 d2"
      using writeFileSync_kept [of dn code d1 "p @ [''RaycastBridge.jsx'']"] w by simp
    then have "kept dn code d d2" by (rule kept_trans [OF k1])
    then show ?thesis using m None w by (cases r2) (simp_all add: install_one_def)
  next
    case (Some e)
    then show ?thesis using m k1 by (simp add: install_one_def)
  qed
qed

lemma install_one_added:
  "added (\<lambda>k. k \<in> set (prefixes_of p) \<or> k = p @ [''RaycastBridge.jsx'']) d
     (snd (install_one dn code p d))"
proof -
  let ?Q = "\<lambda>k. k \<in> set (prefixes_of p) \<or> k = p @ [''RaycastBridge.jsx'']"
  obtain r d1 where m: "mkdirSync dn p d = (r, d1)" by (cases "mkdirSync dn p d")
  have "added (\<lambda>k. k \<in> set (prefixes_of p)) d d1"
    using mkdirs_added [of "prefixes_of p" d dn] m by (simp add: mkdirSync_def)
  then have a1: "added ?Q d d1" by (rule added_mono) simp
  show ?thesis
  proof (cases r)
    case None
    obtain r2 d2 where w: "writeFileSync dn (p @ [''RaycastBridge.jsx'']) code d1 = (r2, d2)"
      by (cases "writeFileSync dn (p @ [''RaycastBridge.jsx'']) code d1")
    have "added (\<lambda>k. k = p @ [''RaycastBridge.jsx'']) d1 d2"
      using writeFileSync_added [of "p @ [''RaycastBridge.jsx'']" d1 dn code] w by simp
    then have "added ?Q d1 d2" by (rule added_mono) simp
    then have "added ?Q d d2" by (rule added_trans [OF a1])
    then show ?thesis using m None w by (cases r2) (simp_all add: install_one_def)
  next
    case (Some e)
    then show ?thesis using m a1 by (simp add: install_one_def)
  qed
qed

lemma prefixes_of_self: "p \<noteq> [] \<Longrightarrow> p \<in> set (prefixes_of p)"
  by (induction p) auto

lemma mkdirSync_is_dir: "mkdirSync dn p d = (None, d') \<Longrightarrow> is_dir d' p"
  using mkdirs_Dir [of dn "prefixes_of p" d d' p] prefixes_of_self [of p]
  by (auto simp: mkdirSync_def is_dir_def)

lemma install_one_settled:
  assumes "install_one dn code p d = (b, d1)" and "kept dn code d1 d2"
  shows "install_one dn code p d2 = (b, d2)"
proof -
  let ?t = "p @ [''RaycastBridge.jsx'']"
  obtain r dm where m: "mkdirSync dn p d = (r, dm)" by (cases "mkdirSync dn p d")
  show ?thesis
  proof (cases r)
    case (Some e)
    then have "d1 = dm" "b = False" using assms(1) m by (auto simp: install_one_def)
    then have "mkdirSync dn p d2 = (Some e, d2)"
      using mkdirs_settled [of dn "prefixes_of p" d r dm code d2] m Some assms(2)
      by (simp add: mkdirSync_def)
    then show ?thesis using \<open>b = False\<close> by (simp add: install_one_def)
  next
    case None
    obtain r2 dw where w: "writeFileSync dn ?t code dm = (r2, dw)"
      by (cases "writeFileSync dn ?t code dm")
    have d1: "d1 = dw" using assms(1) m None w by (cases r2) (simp_all add: install_one_def)
    have kw: "kept dn code dm dw" using writeFileSync_kept [of dn code dm ?t] w by simp
    have k2: "kept dn code dm d2" using kept_trans [OF kw] assms(2) d1 by simp
    have m2: "mkdirSync dn p d2 = (None, d2)"
      using mkdirs_settled [of dn "prefixes_of p" d r dm code d2] m None k2
      by (simp add: mkdirSync_def)
    have dir_dm: "is_dir dm p" using mkdirSync_is_dir m None by simp
    have dir_d2: "is_dir d2 p" using mkdirSync_is_dir m2 by simp
    show ?thesis
    proof (cases r2)
      case None
      then have "dw = AList.update ?t (File (toWellFormed code)) dm" and nd: "\<not> dn ?t"
        using w by (auto simp: writeFileSync_def split: if_splits)
      then have "map_of dw ?t = Some (File (toWellFormed code))" by (simp add: update_conv')
      then have f2: "map_of d2 ?t = Some (File (toWellFormed code))"
        using assms(2) d1 by (simp add: kept_def)
      then have "writeFileSync dn ?t code d2 = (None, d2)"
        using nd dir_d2 by (simp add: writeFileSync_def update_triv)
      moreover have "b = True" using assms(1) m \<open>r = None\<close> w None by (simp add: install_one_def)
      ultimately show ?thesis using m2 by (simp add: install_one_def)
    next
      case (Some e2)
      then have dw: "dw = dm" and b: "b = False"
        using w assms(1) m None by (auto simp: writeFileSync_def install_one_def split: if_splits)
      have why: "map_of dm ?t = Some Dir \<or> dn ?t"
        using w Some dir_dm by (auto simp: writeFileSync_def split: if_splits)
      have "fst (writeFileSync dn ?t code d2) \<noteq> None \<and> snd (writeFileSync dn ?t code d2) = d2"
      proof (cases "map_of dm ?t = Some Dir")
        case True
        then have "map_of d2 ?t = Some Dir" using k2 by (simp add: kept_def)
        then show ?thesis by (simp add: writeFileSync_def)
      next
        case False
        with why have "dn ?t" by simp
        then show ?thesis by (simp add: writeFileSync_def)
      qed
      then obtain e3 where "writeFileSync dn ?t code d2 = (Some e3, d2)"
        by (cases "writeFileSync dn ?t code d2") auto
      then show ?thesis using m2 b by (simp add: install_one_def)
    qed
  qed
qed

lemma install_one_ok_Dir:
  assumes "install_one dn code p d = (True, d')" "q \<in> set (prefixes_of p)"
  shows "map_of d' q = Some Dir"
proof -
  obtain r dm where m: "mkdirSync dn p d = (r, dm)" by (cases "mkdirSync dn p d")
  have r: "r = None" using assms(1) m by (cases r) (simp_all add: install_one_def)
  have "map_of dm q = Some Dir"
    using mkdirs_Dir [of dn "prefixes_of p" d dm q] m r assms(2) by (simp add: mkdirSync_def)
  moreover have "kept dn code dm d'"
    using writeFileSync_kept [of dn code dm "p @ [''RaycastBridge.jsx'']"] assms(1) m r
    by (auto simp: install_one_def split: prod.splits option.splits)
  ultimately show ?thesis by (simp add: kept_def)
qed

lemma install_paths_run:
  assumes "install_paths dn code ps (n, d) = (n', d')"
  shows "kept dn code d d'
       \<and> added (\<lambda>k. \<exists>p \<in> set ps. k \<in> set (prefixes_of p) \<or> k = p @ [''RaycastBridge.jsx'']) d d'
       \<and> (\<forall>p \<in> set ps. snd (install_one dn code p d') = d')
       \<and> n' = n + length (filter (\<lambda>p. fst (install_one dn code p d')) ps)"
  using assms
proof (induction ps arbitrary: n d)
  case Nil
  then show ?case by (simp add: kept_refl added_refl)
next
  case (Cons p ps)
  let ?Q = "\<lambda>ps k. \<exists>p \<in> set ps. k \<in> set (prefixes_of p) \<or> k = p @ [''RaycastBridge.jsx'']"
  obtain b d1 where i: "install_one dn code p d = (b, d1)" by (cases "install_one dn code p d")
  have rest: "install_paths dn code ps (if b then Suc n else n, d1) = (n', d')"
    using Cons.prems i by (cases b) simp_all
  note ih = Cons.IH [OF rest]
  have k1: "kept dn code d d1" using install_one_kept [of dn code d p] i by simp
  have a1: "added (?Q (p # ps)) d d1"
    using install_one_added [of p d dn code] i by (auto intro: added_mono)
  have a2: "added (?Q (p # ps)) d1 d'"
    using ih by (auto intro: added_mono)
  have s: "install_one dn code p d' = (b, d')"
    using install_one_settled [OF i] ih by simp
  have "kept dn code d d'" using kept_trans [OF k1] ih by simp
  moreover have "added (?Q (p # ps)) d d'" by (rule added_trans [OF a1 a2])
  moreover have "\<forall>q \<in> set (p # ps). snd (install_one dn code q d') = d'"
    using s ih by simp
  moreover have "n' = n + length (filter (\<lambda>p. fst (install_one dn code p d')) (p # ps))"
    using s ih by (cases b) simp_all
  ultimately show ?case by blast
qed

lemma prefixes_of_take:
  "k \<in> set (prefixes_of p) \<longleftrightarrow> (\<exists>n. 0 < n \<and> n \<le> length p \<and> k = take n p)"
proof (induction p arbitrary: k)
  case Nil
  then show ?case by simp
next
  case (Cons x xs)
  show ?case
  proof
    assume "k \<in> set (prefixes_of (x # xs))"
    then consider "k = [x]" | k' where "k' \<in> set (prefixes_of xs)" "k = x # k'" by auto
    then show "\<exists>n. 0 < n \<and> n \<le> length (x # xs) \<and> k = take n (x # xs)"
    proof cases
      case 1
      then show ?thesis by (intro exI [of _ 1]) simp
    next
      case 2
      then obtain n where "0 < n" "n \<le> length xs" "k' = take n xs" using Cons.IH by blast
      then show ?thesis using 2 by (intro exI [of _ "Suc n"]) simp
    qed
  next
    assume "\<exists>n. 0 < n \<and> n \<le> length (x # xs) \<and> k = take n (x # xs)"
    then obtain n where n: "0 < n" "n \<le> length (x # xs)" "k = take n (x # xs)" by blast
    then obtain m where m: "n = Suc m" by (cases n) auto
    show "k \<in> set (prefixes_of (x # xs))"
    proof (cases m)
      case 0
      then show ?thesis using n m by simp
    next
      case (Suc j)
      then have "take m xs \<in> set (prefixes_of xs)" using Cons.IH [of "take m xs"] n m by auto
      then show ?thesis using n m by simp
    qed
  qed
qed

lemma child_prefix:
  assumes "k \<in> set (prefixes_of (b' @ xs))" "butlast k = b" "length b' = length b"
  shows "b' = b \<and> xs \<noteq> [] \<and> last k = hd xs"
proof -
  obtain n where n: "0 < n" "n \<le> length (b' @ xs)" "k = take n (b' @ xs)"
    using assms(1) prefixes_of_take by blast
  have "length (butlast k) = n - 1" using n by simp
  then have n1: "n = Suc (length b)" using assms(2) n(1) by simp
  then have xs: "xs \<noteq> []" using n(2) assms(3) by auto
  then obtain x xs' where x: "xs = x # xs'" by (cases xs) auto
  have "k = b' @ [x]" using n(3) n1 assms(3) x by simp
  then show ?thesis using assms(2) x by simp
qed

lemma child_in_prefixes: "b @ [v] \<in> set (prefixes_of (b @ v # xs))"
  unfolding prefixes_of_take by (intro exI [of _ "Suc (length b)"]) simp

lemma readdir_versions:
  assumes "b \<noteq> []"
  shows "(case readdirSync b d of Inl x \<Rightarrow> []
          | Inr names \<Rightarrow> filter (\<lambda>v. isDirectory d (b @ [v])) names)
         = (if map_of d b = Some Dir then dir_children b d else [])"
proof -
  have "filter (\<lambda>v. map_of d (b @ [v]) = Some Dir)
          (map last (filter (\<lambda>k. k \<noteq> [] \<and> butlast k = b) ks))
        = map last (filter (\<lambda>k. k \<noteq> [] \<and> butlast k = b \<and> map_of d k = Some Dir) ks)" for ks
  proof (induction ks)
    case Nil
    then show ?case by simp
  next
    case (Cons k ks)
    have "k \<noteq> [] \<Longrightarrow> butlast k = b \<Longrightarrow> b @ [last k] = k" by auto
    then show ?case using Cons by auto
  qed
  then show ?thesis using assms
    by (simp add: readdirSync_def is_dir_def isDirectory_def dir_children_def)
qed

lemma wf_no_children: "wf_disk d \<Longrightarrow> b \<noteq> [] \<Longrightarrow> map_of d b \<noteq> Some Dir \<Longrightarrow> dir_children b d = []"
  by (auto simp: wf_disk_def dir_children_def is_dir_def filter_empty_conv)

lemma dir_children_keys:
  "v \<in> set (dir_children b d) \<longleftrightarrow> (b @ [v] \<in> set (map fst d) \<and> map_of d (b @ [v]) = Some Dir)"
proof
  assume "v \<in> set (dir_children b d)"
  then obtain k where k: "k \<in> set (map fst d)" "k \<noteq> []" "butlast k = b" "map_of d k = Some Dir"
    "v = last k" by (auto simp: dir_children_def)
  then have "b @ [v] = k" by auto
  then show "b @ [v] \<in> set (map fst d) \<and> map_of d (b @ [v]) = Some Dir" using k by simp
next
  assume a: "b @ [v] \<in> set (map fst d) \<and> map_of d (b @ [v]) = Some Dir"
  then have "b @ [v] \<in> set (filter (\<lambda>k. k \<noteq> [] \<and> butlast k = b \<and> map_of d k = Some Dir) (map fst d))"
    by simp
  then have "last (b @ [v])
               \<in> last ` set (filter (\<lambda>k. k \<noteq> [] \<and> butlast k = b \<and> map_of d k = Some Dir) (map fst d))"
    by (rule imageI)
  then show "v \<in> set (dir_children b d)" by (simp add: dir_children_def)
qed

lemma dir_children_grow:
  assumes "kept dn code d d'"
    and "map fst d' = map fst d @ new" and "set new \<inter> set (map fst d) = {}"
  shows "dir_children b d'
           = dir_children b d
             @ map last (filter (\<lambda>k. k \<noteq> [] \<and> butlast k = b \<and> map_of d' k = Some Dir) new)"
proof -
  have old: "map_of d' k = Some Dir \<longleftrightarrow> map_of d k = Some Dir" if "k \<in> set (map fst d)" for k
  proof
    assume "map_of d k = Some Dir"
    then show "map_of d' k = Some Dir" using assms(1) by (simp add: kept_def)
  next
    assume a: "map_of d' k = Some Dir"
    have "map_of d k \<noteq> None" using that by (simp add: map_of_eq_None_iff)
    then obtain n where n: "map_of d k = Some n" by blast
    show "map_of d k = Some Dir"
    proof (cases n)
      case (File c)
      then obtain c' where "map_of d' k = Some (File c')"
        using n assms(1) unfolding kept_def by blast
      then show ?thesis using a by simp
    next
      case Dir
      then show ?thesis using n by simp
    qed
  qed
  have "filter (\<lambda>k. k \<noteq> [] \<and> butlast k = b \<and> map_of d' k = Some Dir) (map fst d)
        = filter (\<lambda>k. k \<noteq> [] \<and> butlast k = b \<and> map_of d k = Some Dir) (map fst d)"
    by (rule filter_cong) (auto simp: old)
  then show ?thesis unfolding dir_children_def assms(2) by simp
qed

lemma wf_append_dir:
  assumes "wf_disk d" "map_of d q = None" "q \<noteq> []" "is_dir d (butlast q)"
  shows "wf_disk (d @ [(q, Dir)])"
proof -
  have dir: "is_dir (d @ [(q, Dir)]) p" if "is_dir d p" for p
  proof (cases "p = []")
    case True
    then show ?thesis by (simp add: is_dir_def)
  next
    case False
    with that have "map_of d p = Some Dir" by (simp add: is_dir_def)
    moreover from this have "p \<noteq> q" using assms(2) by auto
    ultimately show ?thesis
      using map_of_append_absent [OF assms(2), of Dir p] by (simp add: is_dir_def)
  qed
  show ?thesis
    unfolding wf_disk_def
  proof
    fix k assume "k \<in> set (map fst (d @ [(q, Dir)]))"
    then consider "k \<in> set (map fst d)" | "k = q" by auto
    then show "k \<noteq> [] \<and> is_dir (d @ [(q, Dir)]) (butlast k)"
    proof cases
      case 1
      then show ?thesis using assms(1) dir unfolding wf_disk_def by blast
    next
      case 2
      then show ?thesis using assms(3,4) dir by simp
    qed
  qed
qed

lemma mkdirs_wf_gen:
  "wf_disk d \<Longrightarrow> is_dir d pre \<Longrightarrow> wf_disk (snd (mkdirs dn (map (\<lambda>q. pre @ q) (prefixes_of xs)) d))"
proof (induction xs arbitrary: pre d)
  case Nil
  then show ?case by simp
next
  case (Cons x xs)
  let ?q = "pre @ [x]"
  let ?rest = "map (\<lambda>q. ?q @ q) (prefixes_of xs)"
  have eq: "map (\<lambda>q. pre @ q) (prefixes_of (x # xs)) = ?q # ?rest"
    by simp
  show ?case
  proof (cases "map_of d ?q")
    case None
    show ?thesis
    proof (cases "dn ?q")
      case True
      then have "mkdirs dn (?q # ?rest) d = (Some EACCES, d)" using None by simp
      then show ?thesis unfolding eq using Cons.prems(1) by (simp only: snd_conv)
    next
      case False
      have w: "wf_disk (d @ [(?q, Dir)])"
        using wf_append_dir [OF Cons.prems(1) None] Cons.prems(2) by simp
      have "is_dir (d @ [(?q, Dir)]) ?q"
        using map_of_append_absent [OF None, of Dir ?q] by (simp add: is_dir_def)
      then have ih: "wf_disk (snd (mkdirs dn ?rest (d @ [(?q, Dir)])))"
        by (rule Cons.IH [OF w])
      have "mkdirs dn (?q # ?rest) d = mkdirs dn ?rest (d @ [(?q, Dir)])"
        using None False by simp
      then show ?thesis unfolding eq using ih by (simp only:)
    qed
  next
    case (Some n)
    show ?thesis
    proof (cases n)
      case (File c)
      then have "mkdirs dn (?q # ?rest) d = (Some ENOTDIR, d)" using Some by simp
      then show ?thesis unfolding eq using Cons.prems(1) by (simp only: snd_conv)
    next
      case Dir
      then have "is_dir d ?q" using Some by (simp add: is_dir_def)
      then have ih: "wf_disk (snd (mkdirs dn ?rest d))"
        by (rule Cons.IH [OF Cons.prems(1)])
      have "mkdirs dn (?q # ?rest) d = mkdirs dn ?rest d"
        using Some Dir by simp
      then show ?thesis unfolding eq using ih by (simp only:)
    qed
  qed
qed

lemma mkdirSync_wf: "wf_disk d \<Longrightarrow> wf_disk (snd (mkdirSync dn p d))"
  using mkdirs_wf_gen [of d "[]" dn p] by (simp add: mkdirSync_def is_dir_def)

lemma mkdirSync_kept: "kept dn code d (snd (mkdirSync dn p d))"
  by (simp add: mkdirSync_def mkdirs_kept)

lemma mkdirSync_added: "added (\<lambda>k. k \<in> set (prefixes_of p)) d (snd (mkdirSync dn p d))"
  by (simp add: mkdirSync_def mkdirs_added)

lemma mkdirSync_settled:
  "kept dn code (snd (mkdirSync dn p d)) S \<Longrightarrow> snd (mkdirSync dn p S) = S"
  using mkdirs_settled [of dn "prefixes_of p" d "fst (mkdirSync dn p d)" "snd (mkdirSync dn p d)" code S]
  by (simp add: mkdirSync_def)

lemma fold_mk_kept:
  "kept dn code d (fold (\<lambda>v acc. snd (mkdirSync dn (b @ [v]) acc)) vs d)"
proof (induction vs arbitrary: d)
  case Nil
  then show ?case by (simp add: kept_refl)
next
  case (Cons v vs)
  show ?case
    using kept_trans [OF mkdirSync_kept [of dn code d "b @ [v]"] Cons.IH] by simp
qed

lemma fold_mk_wf:
  "wf_disk d \<Longrightarrow> wf_disk (fold (\<lambda>v acc. snd (mkdirSync dn (b @ [v]) acc)) vs d)"
  by (induction vs arbitrary: d) (simp_all add: mkdirSync_wf)

lemma fold_mk_added:
  "added (\<lambda>k. \<exists>v \<in> set vs. k \<in> set (prefixes_of (b @ [v]))) d
     (fold (\<lambda>v acc. snd (mkdirSync dn (b @ [v]) acc)) vs d)"
proof (induction vs arbitrary: d)
  case Nil
  then show ?case by (simp add: added_refl)
next
  case (Cons v vs)
  let ?Q = "\<lambda>k. \<exists>v \<in> set (v # vs). k \<in> set (prefixes_of (b @ [v]))"
  have 1: "added ?Q d (snd (mkdirSync dn (b @ [v]) d))"
    using mkdirSync_added [of "b @ [v]" d dn] by (rule added_mono) simp
  have 2: "added ?Q (snd (mkdirSync dn (b @ [v]) d))
             (fold (\<lambda>v acc. snd (mkdirSync dn (b @ [v]) acc)) vs (snd (mkdirSync dn (b @ [v]) d)))"
    using Cons.IH by (rule added_mono) auto
  show ?case using added_trans [OF 1 2] by simp
qed

lemma fold_mk_settled:
  "kept dn code (fold (\<lambda>v acc. snd (mkdirSync dn (b @ [v]) acc)) vs d) S
   \<Longrightarrow> fold (\<lambda>v acc. snd (mkdirSync dn (b @ [v]) acc)) vs S = S"
proof (induction vs arbitrary: d)
  case Nil
  then show ?case by simp
next
  case (Cons v vs)
  let ?d1 = "snd (mkdirSync dn (b @ [v]) d)"
  have k: "kept dn code (fold (\<lambda>v acc. snd (mkdirSync dn (b @ [v]) acc)) vs ?d1) S"
    using Cons.prems by simp
  have "kept dn code ?d1 S" by (rule kept_trans [OF fold_mk_kept k])
  then have "snd (mkdirSync dn (b @ [v]) S) = S" by (rule mkdirSync_settled)
  then show ?case using Cons.IH [OF k] by simp
qed

lemma discover_one_again:
  assumes run1: "discover_one dn b d = (t, e)"
    and b: "b \<noteq> []" and wf: "wf_disk d"
    and k: "kept dn code e S"
    and a: "added (\<lambda>k. k \<noteq> [] \<and> butlast k = b \<longrightarrow> last k \<in> set (versions t)) e S"
  shows "\<exists>t'. discover_one dn b S = (t', S) \<and> base t' = b \<and> base t = b
           \<and> set (versions t') \<subseteq> set (versions t)
           \<and> (\<forall>P. (\<forall>v. P v \<longrightarrow> map_of S (b @ [v]) = Some Dir)
                  \<longrightarrow> length (filter P (versions t')) = length (filter P (versions t)))"
proof -
  let ?d1 = "snd (mkdirSync dn b d)"
  let ?dc = "dir_children b ?d1"
  let ?f = "\<lambda>v acc. snd (mkdirSync dn (b @ [v]) acc)"
  let ?Q = "\<lambda>k. k \<noteq> [] \<and> butlast k = b \<longrightarrow> last k \<in> set (versions t)"
  have wf1: "wf_disk ?d1" using wf by (rule mkdirSync_wf)
  have vs1: "(case readdirSync b ?d1 of Inl x \<Rightarrow> []
              | Inr names \<Rightarrow> filter (\<lambda>v. isDirectory ?d1 (b @ [v])) names) = ?dc"
    using readdir_versions [OF b, of ?d1] wf_no_children [OF wf1 b] by auto
  have te: "(t, e) = (if ?dc = [] then (\<lparr>base = b, versions = seed_versions\<rparr>, fold ?f seed_versions ?d1)
                      else (\<lparr>base = b, versions = ?dc\<rparr>, ?d1))"
    using run1 unfolding discover_one_def Let_def vs1 by (auto split: if_splits)
  have bt: "base t = b" using te by (auto split: if_splits)
  have k1e: "kept dn code ?d1 e"
    using te fold_mk_kept [of dn code ?d1 b seed_versions] by (auto simp: kept_refl split: if_splits)
  have k1S: "kept dn code ?d1 S" by (rule kept_trans [OF k1e k])
  have mkS: "snd (mkdirSync dn b S) = S" using k1S by (rule mkdirSync_settled)
  have a1e: "added ?Q ?d1 e"
  proof (cases "?dc = []")
    case True
    then have e: "e = fold ?f seed_versions ?d1" and vt: "versions t = seed_versions"
      using te by auto
    have "added (\<lambda>k. \<exists>v \<in> set seed_versions. k \<in> set (prefixes_of (b @ [v]))) ?d1 e"
      unfolding e by (rule fold_mk_added)
    then show ?thesis
    proof (rule added_mono)
      fix k assume "\<exists>v \<in> set seed_versions. k \<in> set (prefixes_of (b @ [v]))"
      then obtain v where v: "v \<in> set seed_versions" "k \<in> set (prefixes_of (b @ [v]))" by blast
      show "?Q k"
      proof (intro impI)
        assume "k \<noteq> [] \<and> butlast k = b"
        then have "last k = hd [v]" using child_prefix [OF v(2), of b] by simp
        then show "last k \<in> set (versions t)" using v(1) vt by simp
      qed
    qed
  next
    case False
    then have "e = ?d1" using te by auto
    then show ?thesis by (simp add: added_refl)
  qed
  have a1S: "added ?Q ?d1 S" by (rule added_trans [OF a1e a])
  then obtain new where new: "map fst S = map fst ?d1 @ new" "\<forall>k \<in> set new. ?Q k" "distinct new"
    "set new \<inter> set (map fst ?d1) = {}" unfolding added_def by blast
  let ?cs = "filter (\<lambda>k. k \<noteq> [] \<and> butlast k = b \<and> map_of S k = Some Dir) new"
  let ?nd = "map last ?cs"
  have dcS: "dir_children b S = ?dc @ ?nd"
    by (rule dir_children_grow [OF k1S new(1) new(4)])
  let ?vs = "if map_of S b = Some Dir then ?dc @ ?nd else []"
  have vsS: "(case readdirSync b S of Inl x \<Rightarrow> []
              | Inr names \<Rightarrow> filter (\<lambda>v. isDirectory S (b @ [v])) names) = ?vs"
    using readdir_versions [OF b, of S] dcS by simp
  have d2: "discover_one dn b S
              = (if ?vs = [] then (\<lparr>base = b, versions = seed_versions\<rparr>, fold ?f seed_versions S)
                 else (\<lparr>base = b, versions = ?vs\<rparr>, S))"
    unfolding discover_one_def Let_def mkS vsS by (simp only:)
  show ?thesis
  proof (cases "?dc = []")
    case False
    then have t: "t = \<lparr>base = b, versions = ?dc\<rparr>" using te by auto
    have "map_of ?d1 b = Some Dir" using False wf_no_children [OF wf1 b] by blast
    then have bS: "map_of S b = Some Dir" using k1S by (simp add: kept_def)
    have "?cs = []"
    proof (rule ccontr)
      assume "?cs \<noteq> []"
      then obtain k where kk: "k \<in> set new" "k \<noteq> []" "butlast k = b"
        by (auto simp: filter_empty_conv)
      then have "last k \<in> set ?dc" using new(2) t by auto
      then have "b @ [last k] \<in> set (map fst ?d1)" by (simp add: dir_children_keys)
      moreover have "b @ [last k] = k" using kk by auto
      ultimately show False using kk(1) new(4) by auto
    qed
    then have "discover_one dn b S = (t, S)" using d2 bS False t by simp
    then show ?thesis using bt by auto
  next
    case True
    then have t: "t = \<lparr>base = b, versions = seed_versions\<rparr>" and e: "e = fold ?f seed_versions ?d1"
      using te by auto
    have foldS: "fold ?f seed_versions S = S" using k unfolding e by (rule fold_mk_settled)
    show ?thesis
    proof (cases "?vs = []")
      case True
      then have "discover_one dn b S = (t, S)" using d2 foldS t by simp
      then show ?thesis using bt by auto
    next
      case False
      then have vs: "?vs = ?nd" and bS: "map_of S b = Some Dir"
        using True by (auto split: if_splits)
      have d3: "discover_one dn b S = (\<lparr>base = b, versions = ?nd\<rparr>, S)"
        using d2 False vs by simp
      have sub: "set ?nd \<subseteq> set seed_versions" using new(2) t by auto
      have "inj_on last (set ?cs)"
      proof (rule inj_onI)
        fix x y assume xy: "x \<in> set ?cs" "y \<in> set ?cs" "last x = last y"
        then have "x \<noteq> []" "y \<noteq> []" "butlast x = butlast y" by auto
        note nz = this
        have "x = butlast x @ [last x]" using \<open>x \<noteq> []\<close> by simp
        also have "\<dots> = butlast y @ [last y]"
          using \<open>butlast x = butlast y\<close> xy(3) by (simp only:)
        also have "\<dots> = y" using \<open>y \<noteq> []\<close> by simp
        finally show "x = y" .
      qed
      then have dist: "distinct ?nd" using new(3) by (simp add: distinct_map)
      have cnt: "length (filter P ?nd) = length (filter P seed_versions)"
        if P: "\<forall>v. P v \<longrightarrow> map_of S (b @ [v]) = Some Dir" for P
      proof -
        have "set (filter P ?nd) = set (filter P seed_versions)"
        proof (intro equalityI subsetI)
          fix x assume "x \<in> set (filter P ?nd)"
          then show "x \<in> set (filter P seed_versions)" using sub by auto
        next
          fix x assume "x \<in> set (filter P seed_versions)"
          then have px: "P x" by simp
          then have dir: "map_of S (b @ [x]) = Some Dir" using P by simp
          then have "b @ [x] \<in> set (map fst S)"
            using map_of_eq_None_iff [of S "b @ [x]"] by auto
          then have "x \<in> set (dir_children b S)" using dir by (simp add: dir_children_keys)
          then have "x \<in> set ?nd" using dcS True by simp
          then show "x \<in> set (filter P ?nd)" using px by simp
        qed
        moreover have "distinct (filter P ?nd)" using dist by simp
        moreover have "distinct (filter P seed_versions)" by (simp add: seed_versions_def)
        ultimately show ?thesis
          using distinct_card [of "filter P ?nd"] distinct_card [of "filter P seed_versions"]
          by (simp only:)
      qed
      have vt: "versions t = seed_versions" using t by simp
      show ?thesis
      proof (intro exI [of _ "\<lparr>base = b, versions = ?nd\<rparr>"] conjI allI impI)
        show "discover_one dn b S = (\<lparr>base = b, versions = ?nd\<rparr>, S)" by (rule d3)
        show "base \<lparr>base = b, versions = ?nd\<rparr> = b" by simp
        show "base t = b" by (rule bt)
        show "set (versions \<lparr>base = b, versions = ?nd\<rparr>) \<subseteq> set (versions t)"
          using sub vt by simp
      next
        fix P assume "\<forall>v. P v \<longrightarrow> map_of S (b @ [v]) = Some Dir"
        then have "length (filter P ?nd) = length (filter P seed_versions)" by (rule cnt)
        then show "length (filter P (versions \<lparr>base = b, versions = ?nd\<rparr>))
                     = length (filter P (versions t))"
          using vt by simp
      qed
    qed
  qed
qed

lemma discover_one_kept: "kept dn code d (snd (discover_one dn b d))"
proof -
  have 1: "kept dn code d (snd (mkdirSync dn b d))" by (rule mkdirSync_kept)
  have 2: "kept dn code d
             (fold (\<lambda>v acc. snd (mkdirSync dn (b @ [v]) acc)) seed_versions (snd (mkdirSync dn b d)))"
    by (rule kept_trans [OF 1 fold_mk_kept])
  show ?thesis using 1 2 by (simp add: discover_one_def Let_def)
qed

lemma discover_one_wf: "wf_disk d \<Longrightarrow> wf_disk (snd (discover_one dn b d))"
  by (simp add: discover_one_def Let_def mkdirSync_wf fold_mk_wf)

lemma discover_one_added:
  "added (\<lambda>k. k \<in> set (prefixes_of b) \<or> (\<exists>v \<in> set seed_versions. k \<in> set (prefixes_of (b @ [v]))))
     d (snd (discover_one dn b d))"
proof -
  let ?Q = "\<lambda>k. k \<in> set (prefixes_of b) \<or> (\<exists>v \<in> set seed_versions. k \<in> set (prefixes_of (b @ [v])))"
  have 1: "added ?Q d (snd (mkdirSync dn b d))"
    using mkdirSync_added [of b d dn] by (rule added_mono) simp
  have "added ?Q (snd (mkdirSync dn b d))
          (fold (\<lambda>v acc. snd (mkdirSync dn (b @ [v]) acc)) seed_versions (snd (mkdirSync dn b d)))"
    using fold_mk_added [of seed_versions b "snd (mkdirSync dn b d)" dn] by (rule added_mono) simp
  then have 2: "added ?Q d
          (fold (\<lambda>v acc. snd (mkdirSync dn (b @ [v]) acc)) seed_versions (snd (mkdirSync dn b d)))"
    by (rule added_trans [OF 1])
  show ?thesis using 1 2 by (simp add: discover_one_def Let_def)
qed

lemma install_paths_fix:
  "\<forall>p \<in> set ps. snd (install_one dn code p S) = S
   \<Longrightarrow> install_paths dn code ps (n, S)
         = (n + length (filter (\<lambda>p. fst (install_one dn code p S)) ps), S)"
proof (induction ps arbitrary: n)
  case Nil
  then show ?case by simp
next
  case (Cons p ps)
  then have s: "install_one dn code p S = (fst (install_one dn code p S), S)"
    by (simp add: prod_eq_iff)
  have step: "install_paths dn code (p # ps) (n, S)
                = install_paths dn code ps (if fst (install_one dn code p S) then Suc n else n, S)"
    by (subst install_paths.simps, subst s) simp
  show ?case unfolding step using Cons by simp
qed

lemma startup_dirs_two:
  "startup_dirs [t1, t2]
     = map (\<lambda>v. base t1 @ [v, ''Scripts'', ''Startup'']) (versions t1)
       @ map (\<lambda>v. base t2 @ [v, ''Scripts'', ''Startup'']) (versions t2)"
  by (simp add: startup_dirs_def)

lemma target_not_child:
  "length b' = length b \<Longrightarrow> butlast ((b' @ [v, s1, s2]) @ [x]) \<noteq> b"
  by (metis butlast_snoc length_append length_Cons add_left_cancel list.size(3) nat.simps(3) add.right_neutral)

lemma install_result:
  assumes "discoverAETargets dn h d = (ts, d1)"
    and "install_paths dn code (startup_dirs ts) (0, d1) = (n, d2)"
  shows "installUnifiedBridge dn h code d
           = (if n = 0
              then (\<lparr>success = False, installCount = 0,
                     message = ''Could not create any Startup folder''\<rparr>, d2)
              else (\<lparr>success = True, installCount = n,
                     message = ''Installed Bridge in '' @ dec n @ '' version(s)''\<rparr>, d2))"
  using assms by (simp add: installUnifiedBridge_def)

lemma discover_two:
  assumes "candidates h = [b1, b2]"
    and "discover_one dn b1 d = (t1, e1)" and "discover_one dn b2 e1 = (t2, e2)"
  shows "discoverAETargets dn h d = ([t1, t2], e2)"
  using assms by (simp add: discoverAETargets_def)

lemma count_map:
  "length (filter P (map f xs)) = length (filter (\<lambda>x. P (f x)) xs)"
  by (induction xs) simp_all

lemma install_twice:
  assumes wf: "wf_disk d"
    and cand: "candidates h = [b1, b2]"
    and len: "length b1 = length b2" and ne: "b1 \<noteq> b2" and nz: "b1 \<noteq> []" "b2 \<noteq> []"
    and r1: "discover_one dn b1 d = (t1, e1)" and r2: "discover_one dn b2 e1 = (t2, e2)"
    and ip1: "install_paths dn code (startup_dirs [t1, t2]) (0, e2) = (n1, S)"
  shows "\<exists>ts. discoverAETargets dn h S = (ts, S)
            \<and> install_paths dn code (startup_dirs ts) (0, S) = (n1, S)"
proof -
  let ?f1 = "\<lambda>v. b1 @ [v, ''Scripts'', ''Startup'']"
  let ?f2 = "\<lambda>v. b2 @ [v, ''Scripts'', ''Startup'']"
  let ?ok = "\<lambda>p. fst (install_one dn code p S)"
  let ?Q1 = "\<lambda>k. k \<noteq> [] \<and> butlast k = b1 \<longrightarrow> last k \<in> set (versions t1)"
  let ?Q2 = "\<lambda>k. k \<noteq> [] \<and> butlast k = b2 \<longrightarrow> last k \<in> set (versions t2)"
  have bt1: "base t1 = b1" using r1 by (auto simp: discover_one_def Let_def split: if_splits)
  have bt2: "base t2 = b2" using r2 by (auto simp: discover_one_def Let_def split: if_splits)
  have ps1: "startup_dirs [t1, t2] = map ?f1 (versions t1) @ map ?f2 (versions t2)"
    by (simp add: startup_dirs_two bt1 bt2)
  note run = install_paths_run [OF ip1]
  have kS: "kept dn code e2 S" using run by simp
  have fixS: "\<forall>p \<in> set (startup_dirs [t1, t2]). snd (install_one dn code p S) = S"
    using run by simp
  have n1: "n1 = length (filter ?ok (startup_dirs [t1, t2]))" using run by simp
  have k12: "kept dn code e1 e2" using discover_one_kept [of dn code e1 b2] r2 by simp
  have k1S: "kept dn code e1 S" by (rule kept_trans [OF k12 kS])
  have wf1: "wf_disk e1" using discover_one_wf [OF wf, of dn b1] r1 by simp
  \<comment> \<open>what the installs can create\<close>
  have inst: "added Q e2 S"
    if "\<And>k v. v \<in> set (versions t1) \<Longrightarrow> k \<in> set (prefixes_of (?f1 v)) \<or> k = ?f1 v @ [''RaycastBridge.jsx''] \<Longrightarrow> Q k"
      and "\<And>k v. v \<in> set (versions t2) \<Longrightarrow> k \<in> set (prefixes_of (?f2 v)) \<or> k = ?f2 v @ [''RaycastBridge.jsx''] \<Longrightarrow> Q k"
    for Q
  proof -
    have "added (\<lambda>k. \<exists>p \<in> set (startup_dirs [t1, t2]).
                   k \<in> set (prefixes_of p) \<or> k = p @ [''RaycastBridge.jsx'']) e2 S"
      using run by simp
    then show ?thesis
    proof (rule added_mono)
      fix k assume "\<exists>p \<in> set (startup_dirs [t1, t2]).
                      k \<in> set (prefixes_of p) \<or> k = p @ [''RaycastBridge.jsx'']"
      then obtain p where p: "p \<in> set (startup_dirs [t1, t2])"
        "k \<in> set (prefixes_of p) \<or> k = p @ [''RaycastBridge.jsx'']" by blast
      from p(1) consider v where "v \<in> set (versions t1)" "p = ?f1 v"
        | v where "v \<in> set (versions t2)" "p = ?f2 v"
        unfolding ps1 by auto
      then show "Q k" using that p(2) by cases blast+
    qed
  qed
  have child: "last k = v \<and> b' = b"
    if "k \<in> set (prefixes_of (b' @ [v, ''Scripts'', ''Startup'']))" "butlast k = b"
      "length b' = length b" for k v b b'
    using child_prefix [OF that] by simp
  have a2S: "added ?Q2 e2 S"
  proof (rule inst)
    fix k v assume v: "v \<in> set (versions t1)"
      and k: "k \<in> set (prefixes_of (?f1 v)) \<or> k = ?f1 v @ [''RaycastBridge.jsx'']"
    show "?Q2 k"
    proof (intro impI)
      assume c: "k \<noteq> [] \<and> butlast k = b2"
      from k show "last k \<in> set (versions t2)"
      proof
        assume "k \<in> set (prefixes_of (?f1 v))"
        then show ?thesis using child [of k b1 v b2] c len ne by simp
      next
        assume "k = ?f1 v @ [''RaycastBridge.jsx'']"
        then show ?thesis using target_not_child [of b1 b2 v] c len by simp
      qed
    qed
  next
    fix k v assume v: "v \<in> set (versions t2)"
      and k: "k \<in> set (prefixes_of (?f2 v)) \<or> k = ?f2 v @ [''RaycastBridge.jsx'']"
    show "?Q2 k"
    proof (intro impI)
      assume c: "k \<noteq> [] \<and> butlast k = b2"
      from k show "last k \<in> set (versions t2)"
      proof
        assume "k \<in> set (prefixes_of (?f2 v))"
        then show ?thesis using child [of k b2 v b2] c v by simp
      next
        assume "k = ?f2 v @ [''RaycastBridge.jsx'']"
        then show ?thesis using target_not_child [of b2 b2 v] c by simp
      qed
    qed
  qed
  have a1S': "added ?Q1 e2 S"
  proof (rule inst)
    fix k v assume v: "v \<in> set (versions t1)"
      and k: "k \<in> set (prefixes_of (?f1 v)) \<or> k = ?f1 v @ [''RaycastBridge.jsx'']"
    show "?Q1 k"
    proof (intro impI)
      assume c: "k \<noteq> [] \<and> butlast k = b1"
      from k show "last k \<in> set (versions t1)"
      proof
        assume "k \<in> set (prefixes_of (?f1 v))"
        then show ?thesis using child [of k b1 v b1] c v by simp
      next
        assume "k = ?f1 v @ [''RaycastBridge.jsx'']"
        then show ?thesis using target_not_child [of b1 b1 v] c by simp
      qed
    qed
  next
    fix k v assume v: "v \<in> set (versions t2)"
      and k: "k \<in> set (prefixes_of (?f2 v)) \<or> k = ?f2 v @ [''RaycastBridge.jsx'']"
    show "?Q1 k"
    proof (intro impI)
      assume c: "k \<noteq> [] \<and> butlast k = b1"
      from k show "last k \<in> set (versions t1)"
      proof
        assume "k \<in> set (prefixes_of (?f2 v))"
        then show ?thesis using child [of k b2 v b1] c len ne by simp
      next
        assume "k = ?f2 v @ [''RaycastBridge.jsx'']"
        then show ?thesis using target_not_child [of b2 b1 v] c len by simp
      qed
    qed
  qed
  have a12: "added ?Q1 e1 e2"
  proof -
    have "added (\<lambda>k. k \<in> set (prefixes_of b2)
                   \<or> (\<exists>v \<in> set seed_versions. k \<in> set (prefixes_of (b2 @ [v])))) e1 e2"
      using discover_one_added [of b2 e1 dn] r2 by simp
    then show ?thesis
    proof (rule added_mono)
      fix k assume k: "k \<in> set (prefixes_of b2)
                   \<or> (\<exists>v \<in> set seed_versions. k \<in> set (prefixes_of (b2 @ [v])))"
      show "?Q1 k"
      proof (intro impI)
        assume c: "k \<noteq> [] \<and> butlast k = b1"
        from k show "last k \<in> set (versions t1)"
        proof
          assume "k \<in> set (prefixes_of b2)"
          then have "k \<in> set (prefixes_of (b2 @ []))" by simp
          from child_prefix [OF this, of b1] c len show ?thesis by simp
        next
          assume "\<exists>v \<in> set seed_versions. k \<in> set (prefixes_of (b2 @ [v]))"
          then obtain v where "k \<in> set (prefixes_of (b2 @ [v]))" by blast
          from child_prefix [OF this, of b1] c len ne show ?thesis by simp
        qed
      qed
    qed
  qed
  have a1S: "added ?Q1 e1 S" by (rule added_trans [OF a12 a1S'])
  obtain t1' where t1': "discover_one dn b1 S = (t1', S)" "base t1' = b1"
    "set (versions t1') \<subseteq> set (versions t1)"
    "\<forall>P. (\<forall>v. P v \<longrightarrow> map_of S (b1 @ [v]) = Some Dir)
          \<longrightarrow> length (filter P (versions t1')) = length (filter P (versions t1))"
    using discover_one_again [OF r1 nz(1) wf k1S a1S] by blast
  obtain t2' where t2': "discover_one dn b2 S = (t2', S)" "base t2' = b2"
    "set (versions t2') \<subseteq> set (versions t2)"
    "\<forall>P. (\<forall>v. P v \<longrightarrow> map_of S (b2 @ [v]) = Some Dir)
          \<longrightarrow> length (filter P (versions t2')) = length (filter P (versions t2))"
    using discover_one_again [OF r2 nz(2) wf1 kS a2S] by blast
  have dl2: "discoverAETargets dn h S = ([t1', t2'], S)"
    by (rule discover_two [OF cand t1'(1) t2'(1)])
  have ps2: "startup_dirs [t1', t2'] = map ?f1 (versions t1') @ map ?f2 (versions t2')"
    by (simp add: startup_dirs_two t1'(2) t2'(2))
  have sub: "set (startup_dirs [t1', t2']) \<subseteq> set (startup_dirs [t1, t2])"
    unfolding ps1 ps2 using t1'(3) t2'(3) by auto
  have "\<forall>p \<in> set (startup_dirs [t1', t2']). snd (install_one dn code p S) = S"
    using fixS sub by blast
  then have ip2: "install_paths dn code (startup_dirs [t1', t2']) (0, S)
                    = (0 + length (filter ?ok (startup_dirs [t1', t2'])), S)"
    by (rule install_paths_fix)
  \<comment> \<open>the counts\<close>
  have okdir: "map_of S (b @ [v]) = Some Dir"
    if "v \<in> set vs" "?ok (b @ [v, ''Scripts'', ''Startup''])"
      "\<forall>p \<in> set (map (\<lambda>v. b @ [v, ''Scripts'', ''Startup'']) vs). snd (install_one dn code p S) = S"
    for b v vs
  proof -
    have "install_one dn code (b @ [v, ''Scripts'', ''Startup'']) S = (True, S)"
      using that by (simp add: prod_eq_iff)
    then show ?thesis
      using install_one_ok_Dir [of dn code "b @ [v, ''Scripts'', ''Startup'']" S S "b @ [v]"]
        child_in_prefixes [of b v "[''Scripts'', ''Startup'']"] by simp
  qed
  have c1: "length (filter (\<lambda>v. ?ok (?f1 v)) (versions t1'))
              = length (filter (\<lambda>v. ?ok (?f1 v)) (versions t1))"
  proof -
    let ?P = "\<lambda>v. v \<in> set (versions t1) \<and> ?ok (?f1 v)"
    have h: "\<forall>v. ?P v \<longrightarrow> map_of S (b1 @ [v]) = Some Dir"
      using okdir [of _ "versions t1" b1] fixS unfolding ps1 by auto
    have e0: "length (filter ?P (versions t1')) = length (filter ?P (versions t1))"
      by (rule mp [OF spec [OF t1'(4), of ?P] h])
    have e1: "filter ?P (versions t1') = filter (\<lambda>v. ?ok (?f1 v)) (versions t1')"
      using t1'(3) by (intro filter_cong) auto
    have e2: "filter ?P (versions t1) = filter (\<lambda>v. ?ok (?f1 v)) (versions t1)"
      by (intro filter_cong) auto
    show ?thesis using e0 unfolding e1 e2 .
  qed
  have c2: "length (filter (\<lambda>v. ?ok (?f2 v)) (versions t2'))
              = length (filter (\<lambda>v. ?ok (?f2 v)) (versions t2))"
  proof -
    let ?P = "\<lambda>v. v \<in> set (versions t2) \<and> ?ok (?f2 v)"
    have h: "\<forall>v. ?P v \<longrightarrow> map_of S (b2 @ [v]) = Some Dir"
      using okdir [of _ "versions t2" b2] fixS unfolding ps1 by auto
    have e0: "length (filter ?P (versions t2')) = length (filter ?P (versions t2))"
      by (rule mp [OF spec [OF t2'(4), of ?P] h])
    have e1: "filter ?P (versions t2') = filter (\<lambda>v. ?ok (?f2 v)) (versions t2')"
      using t2'(3) by (intro filter_cong) auto
    have e2: "filter ?P (versions t2) = filter (\<lambda>v. ?ok (?f2 v)) (versions t2)"
      by (intro filter_cong) auto
    show ?thesis using e0 unfolding e1 e2 .
  qed
  have "length (filter ?ok (startup_dirs [t1', t2'])) = n1"
    unfolding n1 ps1 ps2 by (simp only: filter_append length_append count_map c1 c2)
  then show ?thesis using dl2 ip2 by simp
qed

lemma candidates_shape:
  "\<exists>b1 b2. candidates h = [b1, b2] \<and> length b1 = length b2 \<and> b1 \<noteq> b2 \<and> b1 \<noteq> [] \<and> b2 \<noteq> []"
  by (simp add: candidates_def)

text \<open>
  C9: on a tree-shaped disk, running the installer a second time right after the first
  returns the same result, with the same count and the same message, and leaves the disk
  exactly as the first run left it: each startup script is overwritten in place with the
  same text and no entry is added. The installer never throws: its result is the failure
  record with count 0 and the message \<open>Could not create any Startup folder\<close> when no
  write succeeded, and otherwise the success record whose count is the number of startup
  folders whose script was written.
\<close>

theorem install_idempotent:
  assumes "wf_disk d"
  shows "installUnifiedBridge dn h code (snd (installUnifiedBridge dn h code d))
           = installUnifiedBridge dn h code d
       \<and> installCount (fst (installUnifiedBridge dn h code d))
           = length (filter (\<lambda>p. fst (install_one dn code p (snd (installUnifiedBridge dn h code d))))
               (startup_dirs (fst (discoverAETargets dn h d))))
       \<and> (fst (installUnifiedBridge dn h code d)
             = \<lparr>success = False, installCount = 0,
                message = ''Could not create any Startup folder''\<rparr>
           \<or> fst (installUnifiedBridge dn h code d)
             = \<lparr>success = True,
                installCount = installCount (fst (installUnifiedBridge dn h code d)),
                message = ''Installed Bridge in ''
                  @ dec (installCount (fst (installUnifiedBridge dn h code d))) @ '' version(s)''\<rparr>
             \<and> 0 < installCount (fst (installUnifiedBridge dn h code d)))"
proof -
  obtain b1 b2 where c: "candidates h = [b1, b2]" "length b1 = length b2" "b1 \<noteq> b2"
    "b1 \<noteq> []" "b2 \<noteq> []" using candidates_shape by blast
  obtain t1 e1 where r1: "discover_one dn b1 d = (t1, e1)" by (cases "discover_one dn b1 d")
  obtain t2 e2 where r2: "discover_one dn b2 e1 = (t2, e2)" by (cases "discover_one dn b2 e1")
  obtain n1 S where ip1: "install_paths dn code (startup_dirs [t1, t2]) (0, e2) = (n1, S)"
    by (cases "install_paths dn code (startup_dirs [t1, t2]) (0, e2)")
  have dl1: "discoverAETargets dn h d = ([t1, t2], e2)" by (rule discover_two [OF c(1) r1 r2])
  note res1 = install_result [OF dl1 ip1]
  have S: "snd (installUnifiedBridge dn h code d) = S" unfolding res1 by simp
  obtain ts where ts: "discoverAETargets dn h S = (ts, S)"
    "install_paths dn code (startup_dirs ts) (0, S) = (n1, S)"
    using install_twice [OF assms c r1 r2 ip1] by blast
  note res2 = install_result [OF ts]
  have 1: "installUnifiedBridge dn h code (snd (installUnifiedBridge dn h code d))
           = installUnifiedBridge dn h code d"
    unfolding S unfolding res1 res2 by (rule refl)
  have n1: "n1 = length (filter (\<lambda>p. fst (install_one dn code p S)) (startup_dirs [t1, t2]))"
    using install_paths_run [OF ip1] by simp
  have cnt: "installCount (fst (installUnifiedBridge dn h code d)) = n1"
    unfolding res1 by simp
  have 2: "installCount (fst (installUnifiedBridge dn h code d))
           = length (filter (\<lambda>p. fst (install_one dn code p (snd (installUnifiedBridge dn h code d))))
               (startup_dirs (fst (discoverAETargets dn h d))))"
    unfolding cnt S dl1 fst_conv by (rule n1)
  have 3: "fst (installUnifiedBridge dn h code d)
             = \<lparr>success = False, installCount = 0,
                message = ''Could not create any Startup folder''\<rparr>
           \<or> fst (installUnifiedBridge dn h code d)
             = \<lparr>success = True,
                installCount = installCount (fst (installUnifiedBridge dn h code d)),
                message = ''Installed Bridge in ''
                  @ dec (installCount (fst (installUnifiedBridge dn h code d))) @ '' version(s)''\<rparr>
             \<and> 0 < installCount (fst (installUnifiedBridge dn h code d))"
    unfolding res1 by simp
  show ?thesis by (intro conjI 1 2 3)
qed

text \<open>
  Witness for C9: on an empty disk with no denied path the installer seeds three version
  folders under each of the two roots and writes six scripts, and a second run returns
  the same and leaves the same disk; with every path denied it returns the failure record
  with count 0, and so does the second run.
\<close>

theorem install_idempotent_witness:
  "wf_disk []
   \<and> installUnifiedBridge (\<lambda>p. False) (Some [''u'']) (js ''// bridge'')
       (snd (installUnifiedBridge (\<lambda>p. False) (Some [''u'']) (js ''// bridge'') []))
     = installUnifiedBridge (\<lambda>p. False) (Some [''u'']) (js ''// bridge'') []
   \<and> fst (installUnifiedBridge (\<lambda>p. False) (Some [''u'']) (js ''// bridge'') [])
     = \<lparr>success = True, installCount = 6, message = ''Installed Bridge in 6 version(s)''\<rparr>
   \<and> installUnifiedBridge (\<lambda>p. True) (Some [''u'']) (js ''// bridge'')
       (snd (installUnifiedBridge (\<lambda>p. True) (Some [''u'']) (js ''// bridge'') []))
     = installUnifiedBridge (\<lambda>p. True) (Some [''u'']) (js ''// bridge'') []
   \<and> installUnifiedBridge (\<lambda>p. True) (Some [''u'']) (js ''// bridge'') []
     = (\<lparr>success = False, installCount = 0,
         message = ''Could not create any Startup folder''\<rparr>, [])"
proof -
  have w: "wf_disk []" by (simp add: wf_disk_def)
  have 1: "installUnifiedBridge (\<lambda>p. False) (Some [''u'']) (js ''// bridge'')
       (snd (installUnifiedBridge (\<lambda>p. False) (Some [''u'']) (js ''// bridge'') []))
     = installUnifiedBridge (\<lambda>p. False) (Some [''u'']) (js ''// bridge'') []"
    by (rule install_idempotent [OF w, THEN conjunct1])
  have 2: "fst (installUnifiedBridge (\<lambda>p. False) (Some [''u'']) (js ''// bridge'') [])
     = \<lparr>success = True, installCount = 6, message = ''Installed Bridge in 6 version(s)''\<rparr>"
    by code_simp
  have 3: "installUnifiedBridge (\<lambda>p. True) (Some [''u'']) (js ''// bridge'')
       (snd (installUnifiedBridge (\<lambda>p. True) (Some [''u'']) (js ''// bridge'') []))
     = installUnifiedBridge (\<lambda>p. True) (Some [''u'']) (js ''// bridge'') []"
    by (rule install_idempotent [OF w, THEN conjunct1])
  have 4: "installUnifiedBridge (\<lambda>p. True) (Some [''u'']) (js ''// bridge'') []
     = (\<lparr>success = False, installCount = 0,
         message = ''Could not create any Startup folder''\<rparr>, [])"
    by code_simp
  show ?thesis by (intro conjI w 1 2 3 4)
qed

end
